theory Spec2Isabelle
  imports Main "HOL-Library.Word"
begin

section \<open>SyncClient: a blocking byte stream in front of an event-driven TCP handle\<close>

text \<open>
  The development embeds \<^verbatim>\<open>src/src/SyncClient_Impl.h\<close>. The adapter object is a record
  of its members; the handle it points to (\<^verbatim>\<open>AsyncClient\<close>), the network behind the
  handle and the scheduler behind \<^verbatim>\<open>delay\<close> are an explicit environment carried next
  to the members.

  Numbers. The target is the 32-bit Teensy 4.1: \<^verbatim>\<open>size_t\<close> is an unsigned and
  \<^verbatim>\<open>int\<close> a signed 32-bit integer. Vector lengths and indices are \<open>nat\<close>; the one
  \<^verbatim>\<open>size_t\<close> operation of the file that can leave the range, the subtraction
  \<^verbatim>\<open>size() - head\<close>, is written with its wrap-around (\<open>size_sub\<close>), and so is the
  narrowing \<^verbatim>\<open>static_cast<int>\<close> (\<open>to_int\<close>). The vectors are lists: allocation
  inside \<^verbatim>\<open>std::vector\<close> is taken to succeed, except in \<^verbatim>\<open>_onData\<close>, where the
  source itself handles the failure.
\<close>

type_synonym byte = "8 word"

definition SIZE_MOD :: nat where
  "SIZE_MOD = 2 ^ 32"

definition INT_MAX :: nat where
  "INT_MAX = 2 ^ 31 - 1"

definition size_sub :: "nat \<Rightarrow> nat \<Rightarrow> nat" where
  \<comment> \<open>\<^verbatim>\<open>a - b\<close> on \<^verbatim>\<open>size_t\<close>\<close>
  "size_sub a b = (if b \<le> a then a - b else a + SIZE_MOD - b)"

definition to_int :: "nat \<Rightarrow> int" where
  \<comment> \<open>\<^verbatim>\<open>static_cast<int>\<close> of a \<^verbatim>\<open>size_t\<close>\<close>
  "to_int n = (let m = n mod SIZE_MOD in if m \<le> INT_MAX then int m else int m - int SIZE_MOD)"

subsection \<open>The handle and the environment\<close>

text \<open>
  Modelled from the spec: the class \<^verbatim>\<open>AsyncClient\<close> is declared in
  \<^verbatim>\<open>Teensy41_AsyncTCP.hpp\<close>, which is not among the sources. Section 6 of the
  specification gives its contract: the queries \<^verbatim>\<open>connected()\<close>, \<^verbatim>\<open>canSend()\<close> and
  \<^verbatim>\<open>space()\<close> (``whether and how much can currently be sent without blocking''), a
  non-blocking \<^verbatim>\<open>write\<close> that copies and ``returns bytes actually accepted'',
  \<^verbatim>\<open>ack(n)\<close>, \<^verbatim>\<open>abort()\<close>, \<^verbatim>\<open>close()\<close> and the registration of callbacks.
  The record holds what the queries report. \<^verbatim>\<open>canSend()\<close> is ``send-window is
  non-zero'' (sections 4.2 and 4.3); the flag \<open>busy\<close> lets a handle refuse to send although
  it has room.
\<close>

record AsyncClient =
  ac_connected :: bool
  ac_busy :: bool
  ac_space :: nat

definition ac_canSend :: "AsyncClient \<Rightarrow> bool" where
  "ac_canSend c = (\<not> ac_busy c \<and> 0 < ac_space c)"

text \<open>
  Calls made on the handle that only have an effect outside the adapter are recorded in a
  log, in the order in which they are made. For a callback registration the flag says
  whether a callback (\<open>True\<close>) or \<^verbatim>\<open>NULL\<close> (\<open>False\<close>) was registered.
\<close>

datatype call =
    OnData bool | OnAck bool | OnPoll bool | OnTimeout bool | OnDisconnect bool
  | Abort | Close bool | AckLater | Ack nat | Write "byte list"

text \<open>
  What happens while the adapter yields in \<^verbatim>\<open>delay\<close>: the handle changes what it
  reports (\<open>Link\<close>), or one of the callbacks that the adapter registered fires.
  \<open>Data bs ok\<close> carries the received bytes and whether the vector could grow.
  Execution is single-threaded and cooperative (section 5 of the specification): the
  handle runs callbacks during a yield and at no other time, in particular not inside the
  calls the adapter makes on it.
\<close>

datatype event =
    Link AsyncClient | Acked | Data "byte list" bool | Timeout | Disconnect

text \<open>
  The members of \<^verbatim>\<open>SyncClient\<close> first (\<^verbatim>\<open>_client\<close> is \<open>None\<close> for \<^verbatim>\<open>NULL\<close>;
  \<^verbatim>\<open>_ref\<close> is \<open>None\<close> for \<^verbatim>\<open>NULL\<close> and otherwise holds the counter it points to),
  then the environment: \<open>wire\<close>, the bytes the transport has accepted so far; \<open>calls\<close>,
  the log; \<open>replies\<close>, the transport's answers to the coming \<^verbatim>\<open>write\<close> calls on the
  handle, each the number of bytes it is willing to take and what the handle reports
  afterwards; \<open>pending\<close>, the events of the coming yields, one batch for each call of
  \<^verbatim>\<open>delay\<close>. After the last reply the transport takes nothing; after the last batch
  nothing happens any more.
\<close>

record SyncClient =
  client :: "AsyncClient option"
  tx_buffer :: "byte list"
  tx_buffer_head :: nat
  tx_buffer_size :: nat
  rx_buffer :: "byte list"
  rx_buffer_head :: nat
  ref_count :: "int option"
  wire :: "byte list"
  calls :: "call list"
  replies :: "(nat \<times> AsyncClient) list"
  pending :: "event list list"

definition handle_call :: "call \<Rightarrow> SyncClient \<Rightarrow> SyncClient" where
  "handle_call c s = s\<lparr>calls := calls s @ [c]\<rparr>"

definition ac_write :: "byte list \<Rightarrow> SyncClient \<Rightarrow> nat \<times> SyncClient" where
  \<comment> \<open>Modelled from the spec: \<^verbatim>\<open>AsyncClient::write(data, size, ASYNC_WRITE_FLAG_COPY)\<close>
      takes a prefix of the bytes it is given and returns its length.\<close>
  "ac_write bs s =
     (case replies s of
        [] \<Rightarrow> (0, handle_call (Write bs) s)
      | (k, c') # rs \<Rightarrow>
          (let n = min k (length bs)
           in (n, (handle_call (Write bs) s)
                    \<lparr>client := Some c', wire := wire s @ take n bs, replies := rs\<rparr>)))"

subsection \<open>Queries\<close>

definition connected :: "SyncClient \<Rightarrow> bool" where
  "connected s = (case client s of None \<Rightarrow> False | Some c \<Rightarrow> ac_connected c)"

definition canSend :: "SyncClient \<Rightarrow> bool" where
  \<comment> \<open>\<^verbatim>\<open>_client->canSend()\<close>; the source calls it on a bound handle only\<close>
  "canSend s = (case client s of None \<Rightarrow> False | Some c \<Rightarrow> ac_canSend c)"

definition space :: "SyncClient \<Rightarrow> nat" where
  \<comment> \<open>\<^verbatim>\<open>_client->space()\<close>; the source calls it on a bound handle only\<close>
  "space s = (case client s of None \<Rightarrow> 0 | Some c \<Rightarrow> ac_space c)"

subsection \<open>The drain helper\<close>

text \<open>
  The loop of \<^verbatim>\<open>_sendBuffer\<close>, with \<^verbatim>\<open>sent_total\<close> as its accumulator. Its condition
  gives \<open>head < size\<close>, so the subtraction in its body does not wrap. The loop ends for
  every transport: a handle that can send has a window of at least one byte, and the loop
  goes on only after the handle has taken all it was offered.
\<close>

function sendBuffer_loop :: "nat \<Rightarrow> SyncClient \<Rightarrow> nat \<times> SyncClient" where
  "sendBuffer_loop sent_total s =
     (if connected s \<and> canSend s \<and> tx_buffer_head s < length (tx_buffer s) then
        (let available = length (tx_buffer s) - tx_buffer_head s;
             sendable = space s;
             available = (if sendable < available then sendable else available)
         in case ac_write (take available (drop (tx_buffer_head s) (tx_buffer s))) s of
              (sent, s1) \<Rightarrow>
                (let s2 = s1\<lparr>tx_buffer_head := tx_buffer_head s1 + sent\<rparr>;
                     sent_total = sent_total + sent
                 in if sent \<noteq> available then (sent_total, s2)
                    else if tx_buffer_head s2 = length (tx_buffer s2)
                    then sendBuffer_loop sent_total (s2\<lparr>tx_buffer := [], tx_buffer_head := 0\<rparr>)
                    else sendBuffer_loop sent_total s2))
      else (sent_total, s))"
  by pat_completeness auto

termination sendBuffer_loop
  apply (relation "measure (\<lambda>(t, s). length (tx_buffer s) - tx_buffer_head s)")
    apply (auto simp: ac_write_def handle_call_def canSend_def ac_canSend_def space_def Let_def
                split: list.splits option.splits if_splits prod.splits)
  done

declare sendBuffer_loop.simps [simp del]

definition sendBuffer :: "SyncClient \<Rightarrow> nat \<times> SyncClient" where
  "sendBuffer s =
     (if client s = None then (0, s)
      else if \<not> connected s \<or> \<not> canSend s \<or> tx_buffer_head s \<ge> length (tx_buffer s)
      then (0, s)
      else sendBuffer_loop 0 s)"

subsection \<open>The drain loop, one iteration at a time\<close>

text \<open>
  Names for the parts of an iteration: \<open>sending\<close> is the loop condition, \<open>chunk\<close> the
  bytes handed to the handle (\<^verbatim>\<open>available\<close> bytes from \<^verbatim>\<open>&_tx_buffer[_tx_buffer_head]\<close>),
  \<open>advance\<close> the step of the head, \<open>drained\<close> the reset of a buffer whose head has reached
  its size, and \<open>unsent\<close> the bytes from the head on.
\<close>

definition drained :: "SyncClient \<Rightarrow> SyncClient" where
  "drained s = (if tx_buffer_head s = length (tx_buffer s) then s\<lparr>tx_buffer := [], tx_buffer_head := 0\<rparr> else s)"

definition chunk :: "SyncClient \<Rightarrow> byte list" where
  "chunk s = take (min (space s) (length (tx_buffer s) - tx_buffer_head s)) (drop (tx_buffer_head s) (tx_buffer s))"

definition sending :: "SyncClient \<Rightarrow> bool" where
  "sending s = (connected s \<and> canSend s \<and> tx_buffer_head s < length (tx_buffer s))"

definition unsent :: "SyncClient \<Rightarrow> byte list" where
  "unsent s = drop (tx_buffer_head s) (tx_buffer s)"

definition advance :: "nat \<Rightarrow> SyncClient \<Rightarrow> SyncClient" where
  "advance n s = s\<lparr>tx_buffer_head := tx_buffer_head s + n\<rparr>"

lemma sendBuffer_loop_stop:
  assumes "\<not> sending s"
  shows "sendBuffer_loop t s = (t, s)"
  using assms unfolding sending_def
  by (subst sendBuffer_loop.simps) (simp only: if_False)

lemma length_chunk: "sending s \<Longrightarrow> length (chunk s) = min (space s) (length (tx_buffer s) - tx_buffer_head s)"
  by (simp add: chunk_def sending_def)

lemma chunk_pos: "sending s \<Longrightarrow> 0 < length (chunk s)"
  by (auto simp: chunk_def sending_def canSend_def space_def ac_canSend_def split: option.splits)

lemma sendBuffer_loop_go:
  assumes "sending s"
  shows "sendBuffer_loop t s =
     (case ac_write (chunk s) s of (sent, s1) \<Rightarrow>
        if sent \<noteq> length (chunk s) then (t + sent, advance sent s1)
        else sendBuffer_loop (t + sent) (drained (advance sent s1)))"
proof -
  have c: "(if space s < length (tx_buffer s) - tx_buffer_head s then space s else length (tx_buffer s) - tx_buffer_head s)
        = min (space s) (length (tx_buffer s) - tx_buffer_head s)" by (simp add: min_def)
  have g: "connected s \<and> canSend s \<and> tx_buffer_head s < length (tx_buffer s)"
    using assms by (simp add: sending_def)
  show ?thesis
    apply (subst sendBuffer_loop.simps)
    apply (simp only: g if_True Let_def c simp_thms)
    apply (simp only: chunk_def[symmetric])
    apply (cases "ac_write (chunk s) s")
    apply (simp add: drained_def advance_def length_chunk[OF assms])
    done
qed

lemma ac_write_frame:
  assumes "ac_write bs s = (n, s1)"
  shows "n \<le> length bs" "tx_buffer s1 = tx_buffer s" "tx_buffer_head s1 = tx_buffer_head s"
    "tx_buffer_size s1 = tx_buffer_size s" "rx_buffer s1 = rx_buffer s"
    "rx_buffer_head s1 = rx_buffer_head s" "ref_count s1 = ref_count s" "pending s1 = pending s"
    "wire s1 = wire s @ take n bs" "calls s1 = calls s @ [Write bs]"
    "client s \<noteq> None \<Longrightarrow> client s1 \<noteq> None"
  using assms
  by (auto simp: ac_write_def handle_call_def Let_def split: list.splits prod.splits)

lemma drain_decreases:
  assumes "sending s" "ac_write (chunk s) s = (sent, s1)" "sent = length (chunk s)"
  shows "length (tx_buffer (drained (advance sent s1))) - tx_buffer_head (drained (advance sent s1))
         < length (tx_buffer s) - tx_buffer_head s"
proof -
  have "0 < sent" using chunk_pos[OF assms(1)] assms(3) by simp
  moreover have "tx_buffer_head s < length (tx_buffer s)" using assms(1) by (simp add: sending_def)
  ultimately show ?thesis
    using ac_write_frame(2,3)[OF assms(2)]
    by (simp add: drained_def advance_def) arith
qed

lemma sendBuffer_loop_induct [consumes 0, case_names step]:
  assumes step: "\<And>t s. (\<And>sent s1. sending s \<Longrightarrow> ac_write (chunk s) s = (sent, s1) \<Longrightarrow>
                     sent = length (chunk s) \<Longrightarrow> P (t + sent) (drained (advance sent s1))) \<Longrightarrow> P t s"
  shows "P t s"
proof (induction "length (tx_buffer s) - tx_buffer_head s" arbitrary: t s rule: less_induct)
  case less
  show ?case
  proof (rule step)
    fix sent s1
    assume "sending s" "ac_write (chunk s) s = (sent, s1)" "sent = length (chunk s)"
    from drain_decreases[OF this] show "P (t + sent) (drained (advance sent s1))"
      by (rule less)
  qed
qed

text \<open>What the drain helper leaves alone.\<close>

definition same_rest :: "SyncClient \<Rightarrow> SyncClient \<Rightarrow> bool" where
  "same_rest s s' = (tx_buffer_size s' = tx_buffer_size s \<and> rx_buffer s' = rx_buffer s \<and>
     rx_buffer_head s' = rx_buffer_head s \<and> ref_count s' = ref_count s \<and> pending s' = pending s \<and>
     (client s \<noteq> None \<longrightarrow> client s' \<noteq> None))"

lemma same_rest_refl [simp]: "same_rest s s"
  by (simp add: same_rest_def)

lemma same_rest_trans: "same_rest a b \<Longrightarrow> same_rest b c \<Longrightarrow> same_rest a c"
  by (simp add: same_rest_def)

lemma same_rest_step:
  "ac_write bs s = (sent, s1) \<Longrightarrow> same_rest s (advance sent s1) \<and> same_rest s (drained (advance sent s1))"
  using ac_write_frame[of bs s sent s1]
  by (simp add: same_rest_def advance_def drained_def)

lemma sendBuffer_loop_same_rest:
  "sendBuffer_loop t s = (n, s') \<Longrightarrow> same_rest s s'"
proof (induction t s arbitrary: n s' rule: sendBuffer_loop_induct)
  case (step t s)
  show ?case
  proof (cases "sending s")
    case False
    with step.prems show ?thesis by (simp add: sendBuffer_loop_stop)
  next
    case True
    obtain sent s1 where w: "ac_write (chunk s) s = (sent, s1)" by (cases "ac_write (chunk s) s")
    note fr = same_rest_step[OF w]
    show ?thesis
    proof (cases "sent = length (chunk s)")
      case False
      with step.prems True w fr show ?thesis by (simp add: sendBuffer_loop_go)
    next
      case e: True
      from step.prems True w e
      have "sendBuffer_loop (t + sent) (drained (advance sent s1)) = (n, s')"
        by (simp add: sendBuffer_loop_go)
      from step.IH[OF True w e this] fr show ?thesis by (blast intro: same_rest_trans)
    qed
  qed
qed

lemma sendBuffer_same_rest: "sendBuffer s = (n, s') \<Longrightarrow> same_rest s s'"
  by (auto simp: sendBuffer_def dest: sendBuffer_loop_same_rest split: if_splits)

subsection \<open>Callbacks\<close>

definition onData :: "byte list \<Rightarrow> bool \<Rightarrow> SyncClient \<Rightarrow> SyncClient" where
  \<comment> \<open>\<open>ok\<close>: whether \<^verbatim>\<open>_rx_buffer.insert\<close> returned (\<open>True\<close>) or threw\<close>
  "onData bytes ok s =
     (let s1 = handle_call AckLater s
      in if ok then s1\<lparr>rx_buffer := rx_buffer s1 @ bytes\<rparr>
         else handle_call Abort s1)"

definition onDisconnect :: "SyncClient \<Rightarrow> SyncClient" where
  "onDisconnect s =
     (let s1 = (if client s \<noteq> None then s\<lparr>client := None\<rparr> else s)
      in s1\<lparr>tx_buffer := [], tx_buffer_head := 0\<rparr>)"

definition attachCallbacks_AfterConnected :: "SyncClient \<Rightarrow> SyncClient" where
  "attachCallbacks_AfterConnected s =
     handle_call (OnTimeout True) (handle_call (OnData True) (handle_call (OnAck True) s))"

definition attachCallbacks_Disconnect :: "SyncClient \<Rightarrow> SyncClient" where
  "attachCallbacks_Disconnect s = handle_call (OnDisconnect True) s"

definition attachCallbacks :: "SyncClient \<Rightarrow> SyncClient" where
  "attachCallbacks s = attachCallbacks_AfterConnected (attachCallbacks_Disconnect s)"

definition onConnect :: "AsyncClient \<Rightarrow> SyncClient \<Rightarrow> SyncClient" where
  "onConnect c s =
     attachCallbacks_AfterConnected (s\<lparr>client := Some c, tx_buffer := [], tx_buffer_head := 0\<rparr>)"

subsection \<open>Yielding\<close>

text \<open>
  One event of a yield. Callbacks belong to the handle, so nothing is delivered to an
  adapter without one. The acknowledgment callback runs \<^verbatim>\<open>_sendBuffer\<close>, the data
  callback \<^verbatim>\<open>_onData\<close>, the timeout callback calls \<^verbatim>\<open>c->close()\<close>, and the
  disconnect callback runs \<^verbatim>\<open>_onDisconnect\<close> and deletes the handle.
\<close>

definition deliver :: "event \<Rightarrow> SyncClient \<Rightarrow> SyncClient" where
  "deliver ev s =
     (case client s of
        None \<Rightarrow> s
      | Some c \<Rightarrow>
          (case ev of
             Link c' \<Rightarrow> s\<lparr>client := Some c'\<rparr>
           | Acked \<Rightarrow> snd (sendBuffer s)
           | Data bytes ok \<Rightarrow> onData bytes ok s
           | Timeout \<Rightarrow> handle_call (Close False) s
           | Disconnect \<Rightarrow> onDisconnect s))"

definition delay :: "SyncClient \<Rightarrow> SyncClient" where
  \<comment> \<open>\<^verbatim>\<open>delay(0)\<close>: the next batch of events is delivered\<close>
  "delay s =
     (case pending s of
        [] \<Rightarrow> s
      | evs # rest \<Rightarrow> fold deliver evs (s\<lparr>pending := rest\<rparr>))"

lemma deliver_pending [simp]: "pending (deliver ev s) = pending s"
proof -
  have "pending (snd (sendBuffer s)) = pending s"
    using sendBuffer_same_rest[of s "fst (sendBuffer s)" "snd (sendBuffer s)"]
    by (simp add: same_rest_def)
  then show ?thesis
    by (simp add: deliver_def onData_def onDisconnect_def handle_call_def Let_def
             split: option.splits event.splits)
qed

lemma fold_deliver_pending [simp]: "pending (fold deliver evs s) = pending s"
  by (induction evs arbitrary: s) simp_all

lemma delay_pending: "pending s \<noteq> [] \<Longrightarrow> length (pending (delay s)) < length (pending s)"
  by (cases "pending s") (simp_all add: delay_def)

text \<open>
  \<^verbatim>\<open>while (connected() && !_client->canSend()) delay(0);\<close> The loop has no bound.
  When the batches are used up and the loop condition still holds, nothing will change it
  any more and the loop runs forever: the result is \<open>None\<close>.
\<close>

function await_canSend :: "SyncClient \<Rightarrow> SyncClient option" where
  "await_canSend s =
     (if connected s \<and> \<not> canSend s then
        (if pending s = [] then None else await_canSend (delay s))
      else Some s)"
  by pat_completeness auto

termination await_canSend
  by (relation "measure (\<lambda>s. length (pending s))") (simp_all add: delay_pending)

declare await_canSend.simps [simp del]

subsection \<open>The write path\<close>

definition tx_space :: "SyncClient \<Rightarrow> nat" where
  \<comment> \<open>\<^verbatim>\<open>buffered = _tx_buffer.size() - _tx_buffer_head\<close> and
      \<^verbatim>\<open>space = (_tx_buffer_size > buffered) ? (_tx_buffer_size - buffered) : 0\<close>\<close>
  "tx_space s =
     (let buffered = size_sub (length (tx_buffer s)) (tx_buffer_head s)
      in if tx_buffer_size s > buffered then tx_buffer_size s - buffered else 0)"

definition tx_insert :: "byte list \<Rightarrow> SyncClient \<Rightarrow> SyncClient" where
  \<comment> \<open>\<^verbatim>\<open>_tx_buffer.insert(_tx_buffer.end(), first, last)\<close>\<close>
  "tx_insert bytes s = s\<lparr>tx_buffer := tx_buffer s @ bytes\<rparr>"

definition write_finish :: "nat \<Rightarrow> SyncClient \<Rightarrow> nat \<times> SyncClient" where
  \<comment> \<open>after the loop: \<^verbatim>\<open>if (connected() && _client->canSend()) _sendBuffer(); return written;\<close>\<close>
  "write_finish written s =
     (if connected s \<and> canSend s then (written, snd (sendBuffer s)) else (written, s))"

function write_loop :: "byte list \<Rightarrow> nat \<Rightarrow> SyncClient \<Rightarrow> (nat \<times> SyncClient) option" where
  "write_loop data written s =
     (if written < length data then
        (if tx_space s = 0 then
           (case await_canSend s of
              None \<Rightarrow> None
            | Some s1 \<Rightarrow>
                if \<not> connected s1 then Some (written, s1)
                else
                  (let s2 = snd (sendBuffer s1)
                   in if tx_space s2 = 0 then Some (write_finish written s2)
                      else
                        (let toCopy = min (tx_space s2) (length data - written)
                         in write_loop data (written + toCopy)
                              (tx_insert (take toCopy (drop written data)) s2))))
         else
           (let toCopy = min (tx_space s) (length data - written)
            in write_loop data (written + toCopy)
                 (tx_insert (take toCopy (drop written data)) s)))
      else Some (write_finish written s))"
  by pat_completeness auto

termination write_loop
  by (relation "measure (\<lambda>(data, written, s). length data - written)") auto

declare write_loop.simps [simp del]

definition write_data :: "byte list \<Rightarrow> SyncClient \<Rightarrow> (nat \<times> SyncClient) option" where
  \<comment> \<open>\<^verbatim>\<open>write(data, len)\<close>, with \<open>len = length data\<close>\<close>
  "write_data data s =
     (if client s = None \<or> \<not> connected s then Some (0, s)
      else write_loop data 0 s)"

definition write_byte :: "byte \<Rightarrow> SyncClient \<Rightarrow> (nat \<times> SyncClient) option" where
  "write_byte b s = write_data [b] s"

subsection \<open>Flush and stop\<close>

definition flush :: "nat \<Rightarrow> SyncClient \<Rightarrow> (bool \<times> SyncClient) option" where
  "flush maxWaitMs s =
     (if client s = None \<or> \<not> connected s then Some (False, s)
      else if tx_buffer_head s < length (tx_buffer s) then
        (case await_canSend s of
           None \<Rightarrow> None
         | Some s1 \<Rightarrow>
             if client s1 = None then Some (False, s1)
             else (let s2 = snd (sendBuffer s1)
                   in Some (tx_buffer_head s2 = length (tx_buffer s2), s2)))
      else Some (tx_buffer_head s = length (tx_buffer s), s))"

definition ac_close :: "bool \<Rightarrow> SyncClient \<Rightarrow> SyncClient" where
  \<comment> \<open>Modelled from the spec: \<^verbatim>\<open>AsyncClient::close(now)\<close>. With \<open>now\<close> the close is
      immediate: the handle stops reporting a connection. What the handle does next reaches
      the adapter through its callbacks.\<close>
  "ac_close now s =
     (let s1 = handle_call (Close now) s
      in if now then s1\<lparr>client := map_option (\<lambda>c. c\<lparr>ac_connected := False\<rparr>) (client s1)\<rparr>
         else s1)"

definition stop :: "nat \<Rightarrow> SyncClient \<Rightarrow> bool \<times> SyncClient" where
  "stop maxWaitMs s = (True, if client s \<noteq> None then ac_close True s else s)"

subsection \<open>The read path\<close>

definition available :: "SyncClient \<Rightarrow> int" where
  "available s = to_int (size_sub (length (rx_buffer s)) (rx_buffer_head s))"

definition peek :: "SyncClient \<Rightarrow> int" where
  "peek s =
     (if rx_buffer_head s \<ge> length (rx_buffer s) then - 1
      else uint (rx_buffer s ! rx_buffer_head s))"

text \<open>
  \<^verbatim>\<open>read(data, len)\<close> returns its \<^verbatim>\<open>int\<close>, the bytes it stored through \<^verbatim>\<open>data\<close> and
  the new state. The copy reads \<open>toRead\<close> bytes of the vector from the head on; this is
  inside the vector when the head is at most the size, which every function here keeps.
\<close>

definition read :: "nat \<Rightarrow> SyncClient \<Rightarrow> int \<times> byte list \<times> SyncClient" where
  "read len s =
     (let available = size_sub (length (rx_buffer s)) (rx_buffer_head s)
      in if available = 0 then (- 1, [], s)
         else
           (let toRead = min len available;
                copied = take toRead (drop (rx_buffer_head s) (rx_buffer s));
                s1 = s\<lparr>rx_buffer_head := rx_buffer_head s + toRead\<rparr>;
                s2 = (if rx_buffer_head s1 = length (rx_buffer s1)
                      then s1\<lparr>rx_buffer := [], rx_buffer_head := 0\<rparr> else s1);
                s3 = (if toRead \<noteq> 0 \<and> connected s2 then handle_call (Ack toRead) s2 else s2)
            in (to_int toRead, copied, s3)))"

definition read_byte :: "SyncClient \<Rightarrow> int \<times> SyncClient" where
  \<comment> \<open>\<^verbatim>\<open>read()\<close>: \<^verbatim>\<open>res\<close> starts as 0 and is overwritten by the byte copied, if any\<close>
  "read_byte s =
     (case read 1 s of
        (r, copied, s1) \<Rightarrow>
          (let res = (case copied of [] \<Rightarrow> 0 | b # _ \<Rightarrow> b)
           in if r \<noteq> 1 then (- 1, s1) else (uint res, s1)))"

subsection \<open>The shared counter, release and the destructor\<close>

text \<open>
  \<open>alloc\<close> says whether \<^verbatim>\<open>new (std::nothrow) int\<close> returned a counter. The counter is an
  \<^verbatim>\<open>int\<close>; incrementing it at \<^verbatim>\<open>INT_MAX\<close> has no defined behaviour, and the
  statements about \<open>ref\<close> below are for counters under that value.
\<close>

definition ref :: "bool \<Rightarrow> SyncClient \<Rightarrow> int \<times> SyncClient" where
  "ref alloc s =
     (case ref_count s of
        None \<Rightarrow> if alloc then (0 + 1, s\<lparr>ref_count := Some (0 + 1)\<rparr>) else (- 1, s)
      | Some n \<Rightarrow> (n + 1, s\<lparr>ref_count := Some (n + 1)\<rparr>))"

definition unref :: "SyncClient \<Rightarrow> int \<times> SyncClient" where
  "unref s =
     (case ref_count s of
        None \<Rightarrow> (- 1, s)
      | Some n \<Rightarrow>
          (let count = n - 1
           in if 0 = count then (count, s\<lparr>ref_count := None\<rparr>)
              else (count, s\<lparr>ref_count := Some count\<rparr>)))"

definition release :: "SyncClient \<Rightarrow> SyncClient" where
  "release s =
     (let s1 = (if client s \<noteq> None
                then (handle_call Abort (handle_call (OnPoll False)
                        (handle_call (OnAck False) (handle_call (OnData False) s))))
                       \<lparr>client := None\<rparr>
                else s)
      in s1\<lparr>tx_buffer := [], tx_buffer_head := 0, rx_buffer := [], rx_buffer_head := 0\<rparr>)"

definition destroy :: "SyncClient \<Rightarrow> SyncClient" where
  \<comment> \<open>\<^verbatim>\<open>~SyncClient()\<close>\<close>
  "destroy s = (case unref s of (count, s1) \<Rightarrow> if 0 = count then release s1 else s1)"

subsection \<open>Construction\<close>

text \<open>
  The member initialisers, then the constructor bodies. The environment a new adapter
  meets is given: the transport's replies and the batches of events.
\<close>

definition members :: "AsyncClient option \<Rightarrow> nat \<Rightarrow> (nat \<times> AsyncClient) list \<Rightarrow> event list list
    \<Rightarrow> SyncClient" where
  "members c txBufLen rs evs =
     \<lparr>client = c, tx_buffer = [], tx_buffer_head = 0, tx_buffer_size = txBufLen,
      rx_buffer = [], rx_buffer_head = 0, ref_count = None,
      wire = [], calls = [], replies = rs, pending = evs\<rparr>"

definition new_SyncClient :: "nat \<Rightarrow> bool \<Rightarrow> (nat \<times> AsyncClient) list \<Rightarrow> event list list
    \<Rightarrow> SyncClient" where
  \<comment> \<open>\<^verbatim>\<open>SyncClient(size_t txBufLen)\<close>\<close>
  "new_SyncClient txBufLen alloc rs evs = snd (ref alloc (members None txBufLen rs evs))"

definition new_SyncClient_on :: "AsyncClient option \<Rightarrow> nat \<Rightarrow> bool \<Rightarrow> (nat \<times> AsyncClient) list
    \<Rightarrow> event list list \<Rightarrow> SyncClient" where
  \<comment> \<open>\<^verbatim>\<open>SyncClient(AsyncClient *client, size_t txBufLen)\<close>\<close>
  "new_SyncClient_on c txBufLen alloc rs evs =
     (case ref alloc (members c txBufLen rs evs) of
        (count, s) \<Rightarrow> if count > 0 \<and> client s \<noteq> None then attachCallbacks s else s)"

section \<open>Properties\<close>

subsection \<open>The read path\<close>

text \<open>
  The states of the read path: the head is inside the receive vector, and the vector is
  no longer than \<^verbatim>\<open>INT_MAX\<close> bytes (on the target \<^verbatim>\<open>std::vector::max_size()\<close> is at
  most \<^verbatim>\<open>PTRDIFF_MAX\<close>, which is \<^verbatim>\<open>INT_MAX\<close>). \<open>read\<close> keeps these states.
\<close>

definition rx_ok :: "SyncClient \<Rightarrow> bool" where
  "rx_ok s = (rx_buffer_head s \<le> length (rx_buffer s) \<and> length (rx_buffer s) \<le> INT_MAX)"

definition s_rx :: SyncClient where
  "s_rx = (members None 4 [] [])\<lparr>rx_buffer := [10, 20, 30], rx_buffer_head := 1\<rparr>"

lemma to_int_small: "n \<le> INT_MAX \<Longrightarrow> to_int n = int n"
  by (simp add: to_int_def INT_MAX_def SIZE_MOD_def)

lemma size_sub_le: "b \<le> a \<Longrightarrow> size_sub a b = a - b"
  by (simp add: size_sub_def)

lemma available_eq:
  assumes "rx_ok s"
  shows "available s = int (length (rx_buffer s) - rx_buffer_head s)"
proof -
  have "length (rx_buffer s) - rx_buffer_head s \<le> INT_MAX"
    using assms unfolding rx_ok_def by arith
  then have "to_int (length (rx_buffer s) - rx_buffer_head s) = int (length (rx_buffer s) - rx_buffer_head s)"
    by (rule to_int_small)
  then show ?thesis using assms by (simp add: available_def rx_ok_def size_sub_le)
qed

lemma read_some:
  assumes "rx_ok s" "rx_buffer_head s < length (rx_buffer s)"
  shows "read len s =
     (let toRead = min len (length (rx_buffer s) - rx_buffer_head s);
          s1 = (if rx_buffer_head s + toRead = length (rx_buffer s)
                then s\<lparr>rx_buffer_head := 0, rx_buffer := []\<rparr>
                else s\<lparr>rx_buffer_head := rx_buffer_head s + toRead\<rparr>)
      in (int toRead, take toRead (drop (rx_buffer_head s) (rx_buffer s)),
          if toRead \<noteq> 0 \<and> connected s then handle_call (Ack toRead) s1 else s1))"
proof -
  have a: "size_sub (length (rx_buffer s)) (rx_buffer_head s) = length (rx_buffer s) - rx_buffer_head s"
    using assms by (simp add: size_sub_le)
  have b: "to_int (min len (length (rx_buffer s) - rx_buffer_head s)) = int (min len (length (rx_buffer s) - rx_buffer_head s))"
    using assms by (intro to_int_small) (simp add: rx_ok_def)
  show ?thesis using assms(2)
    by (simp add: read_def a b Let_def connected_def handle_call_def)
qed

lemma read_rx_ok:
  assumes "rx_ok s"
  shows "rx_ok (snd (snd (read len s)))"
proof (cases "rx_buffer_head s < length (rx_buffer s)")
  case True
  define n where "n = min len (length (rx_buffer s) - rx_buffer_head s)"
  have "rx_buffer_head s + n \<le> length (rx_buffer s)"
    using True unfolding n_def by arith
  then show ?thesis using assms
    by (simp add: read_some[OF assms True] Let_def rx_ok_def handle_call_def n_def[symmetric])
next
  case False
  then have "size_sub (length (rx_buffer s)) (rx_buffer_head s) = 0"
    using assms by (simp add: rx_ok_def size_sub_le)
  then show ?thesis using assms by (simp add: read_def)
qed

text \<open>
  C3. In every state of the read path, also with an empty buffer, \<open>available\<close> is the
  size of the receive buffer minus its head (and so is not negative); it is a function of
  the state and returns no state, so it changes nothing. For every \<open>k\<close> with
  \<open>0 < k \<le> available\<close>, \<open>read\<close> of \<open>k\<close> bytes returns \<open>k\<close>, hands out the next \<open>k\<close>
  unread bytes, and leaves \<open>available\<close> smaller by exactly \<open>k\<close>.
\<close>

theorem available_read:
  assumes "rx_ok s"
  shows "available s = int (length (rx_buffer s)) - int (rx_buffer_head s) \<and>
         0 \<le> available s \<and>
         (\<forall>k. 0 < k \<and> int k \<le> available s \<longrightarrow>
            (case read k s of (r, copied, s') \<Rightarrow>
               r = int k \<and> available s' = available s - int k \<and>
               copied = take k (drop (rx_buffer_head s) (rx_buffer s))))"
proof -
  have av: "available s = int (length (rx_buffer s) - rx_buffer_head s)"
    using assms by (rule available_eq)
  have le: "rx_buffer_head s \<le> length (rx_buffer s)" using assms by (simp add: rx_ok_def)
  have eq: "available s = int (length (rx_buffer s)) - int (rx_buffer_head s)"
    using av le by simp
  have nn: "0 \<le> available s" using av by simp
  have rd: "case read k s of (r, copied, s') \<Rightarrow>
               r = int k \<and> available s' = available s - int k \<and>
               copied = take k (drop (rx_buffer_head s) (rx_buffer s))"
    if "0 < k" "int k \<le> available s" for k
  proof -
    obtain r copied s' where rd: "read k s = (r, copied, s')" by (cases "read k s")
    have k: "k \<le> length (rx_buffer s) - rx_buffer_head s" using that(2) av by simp
    then have lt: "rx_buffer_head s < length (rx_buffer s)" using that(1) by simp
    have m: "min k (length (rx_buffer s) - rx_buffer_head s) = k" using k by simp
    have ok': "rx_ok s'" using read_rx_ok[OF assms, of k] rd by simp
    have r: "r = int k" and c: "copied = take k (drop (rx_buffer_head s) (rx_buffer s))"
      using rd by (simp_all add: read_some[OF assms lt] m Let_def)
    have "length (rx_buffer s') - rx_buffer_head s' = length (rx_buffer s) - rx_buffer_head s - k"
      using rd k by (auto simp: read_some[OF assms lt] m Let_def handle_call_def split: if_splits)
    then have "available s' = available s - int k"
      using available_eq[OF ok'] av k by simp
    then show ?thesis using rd r c by simp
  qed
  show ?thesis
  proof (intro conjI allI impI)
    show "available s = int (length (rx_buffer s)) - int (rx_buffer_head s)" by (rule eq)
    show "0 \<le> available s" by (rule nn)
    fix k assume k: "0 < k \<and> int k \<le> available s"
    show "case read k s of (r, copied, s') \<Rightarrow>
               r = int k \<and> available s' = available s - int k \<and>
               copied = take k (drop (rx_buffer_head s) (rx_buffer s))"
      by (rule rd[OF conjunct1[OF k] conjunct2[OF k]])
  qed
qed

theorem available_read_witness:
  "rx_ok s_rx \<and> available s_rx = 2 \<and> int (length (rx_buffer s_rx)) - int (rx_buffer_head s_rx) = 2 \<and>
   read 2 s_rx = (2, [20, 30], s_rx\<lparr>rx_buffer := [], rx_buffer_head := 0\<rparr>) \<and>
   available (s_rx\<lparr>rx_buffer := [], rx_buffer_head := 0\<rparr>) = 0 \<and>
   read 1 s_rx = (1, [20], s_rx\<lparr>rx_buffer_head := 2\<rparr>) \<and>
   available (s_rx\<lparr>rx_buffer_head := 2\<rparr>) = 1 \<and>
   rx_ok (members None 4 [] []) \<and> available (members None 4 [] []) = 0"
proof -
  have n: "SIZE_MOD = 4294967296" "INT_MAX = 2147483647" by (simp_all add: SIZE_MOD_def INT_MAX_def)
  have a: "rx_ok s_rx" "rx_ok (members None 4 [] [])"
    by (simp_all add: rx_ok_def s_rx_def members_def n)
  have l: "int (length (rx_buffer s_rx)) - int (rx_buffer_head s_rx) = 2"
    "int (length (rx_buffer (members None 4 [] []))) - int (rx_buffer_head (members None 4 [] [])) = 0"
    by (simp_all add: s_rx_def members_def)
  have c: "read 2 s_rx = (2, [20, 30], s_rx\<lparr>rx_buffer := [], rx_buffer_head := 0\<rparr>)"
    "read 1 s_rx = (1, [20], s_rx\<lparr>rx_buffer_head := 2\<rparr>)"
    by (simp_all add: read_def s_rx_def members_def size_sub_def to_int_def n connected_def Let_def)
  note t = available_read[OF a(1)] and t0 = available_read[OF a(2)]
  have v: "available s_rx = 2" using t l(1) by simp
  have v0: "available (members None 4 [] []) = 0" using t0 l(2) by simp
  have "available (s_rx\<lparr>rx_buffer := [], rx_buffer_head := 0\<rparr>) = available s_rx - int 2"
    using t[THEN conjunct2, THEN conjunct2, rule_format, of 2] v unfolding c(1) by simp
  moreover have "available (s_rx\<lparr>rx_buffer_head := 2\<rparr>) = available s_rx - int 1"
    using t[THEN conjunct2, THEN conjunct2, rule_format, of 1] v unfolding c(2) by simp
  ultimately show ?thesis using a l c v v0 by simp
qed






subsection \<open>Acknowledgment on read\<close>

definition toRead :: "nat \<Rightarrow> SyncClient \<Rightarrow> nat" where
  \<comment> \<open>the number of bytes a call of \<open>read\<close> consumes\<close>
  "toRead len s =
     (let available = size_sub (length (rx_buffer s)) (rx_buffer_head s)
      in if available = 0 then 0 else min len available)"

definition c_up :: AsyncClient where
  "c_up = \<lparr>ac_connected = True, ac_busy = False, ac_space = 8\<rparr>"

definition c_down :: AsyncClient where
  "c_down = \<lparr>ac_connected = False, ac_busy = False, ac_space = 0\<rparr>"



subsection \<open>Disconnection\<close>

fun write_all :: "byte list list \<Rightarrow> SyncClient \<Rightarrow> (nat list \<times> SyncClient) option" where
  \<comment> \<open>successive calls of \<^verbatim>\<open>write(data, len)\<close> and what each returns\<close>
  "write_all [] s = Some ([], s)"
| "write_all (d # ds) s =
     (case write_data d s of
        None \<Rightarrow> None
      | Some (n, s1) \<Rightarrow>
          (case write_all ds s1 of
             None \<Rightarrow> None
           | Some (ns, s2) \<Rightarrow> Some (n # ns, s2)))"

definition s_busy :: SyncClient where
  \<comment> \<open>a connected adapter with two unsent and two unread bytes\<close>
  "s_busy = (members (Some c_up) 4 [] [])
     \<lparr>tx_buffer := [1, 2, 3], tx_buffer_head := 1, rx_buffer := [10, 20, 30], rx_buffer_head := 1,
      ref_count := Some 1\<rparr>"

lemma write_all_unbound:
  "client s = None \<Longrightarrow> write_all ds s = Some (replicate (length ds) 0, s)"
  by (induction ds) (simp_all add: write_data_def)

text \<open>
  C5. The disconnect handler clears the connection reference and empties the send buffer;
  it changes nothing else, in particular not the receive buffer and its head. After it,
  every call of the write function returns 0 (and changes nothing, so this holds for any
  number of calls in a row), and \<open>available\<close>, \<open>peek\<close> and \<open>read\<close> answer as they would
  have answered before the disconnection.
\<close>

theorem onDisconnect_effect:
  "onDisconnect s = s\<lparr>client := None, tx_buffer := [], tx_buffer_head := 0\<rparr> \<and>
   rx_buffer (onDisconnect s) = rx_buffer s \<and>
   rx_buffer_head (onDisconnect s) = rx_buffer_head s \<and>
   write_data d (onDisconnect s) = Some (0, onDisconnect s) \<and>
   write_all ds (onDisconnect s) = Some (replicate (length ds) 0, onDisconnect s) \<and>
   available (onDisconnect s) = available s \<and>
   peek (onDisconnect s) = peek s \<and>
   fst (read len (onDisconnect s)) = fst (read len s) \<and>
   fst (snd (read len (onDisconnect s))) = fst (snd (read len s)) \<and>
   rx_buffer (snd (snd (read len (onDisconnect s)))) = rx_buffer (snd (snd (read len s))) \<and>
   rx_buffer_head (snd (snd (read len (onDisconnect s)))) = rx_buffer_head (snd (snd (read len s))) \<and>
   fst (read_byte (onDisconnect s)) = fst (read_byte s)"
proof -
  have e: "onDisconnect s = s\<lparr>client := None, tx_buffer := [], tx_buffer_head := 0\<rparr>"
    by (simp add: onDisconnect_def)
  have c: "client (onDisconnect s) = None" by (simp add: e)
  have w: "write_data d (onDisconnect s) = Some (0, onDisconnect s)"
    using c by (simp add: write_data_def)
  have r: "\<And>n. fst (read n (onDisconnect s)) = fst (read n s) \<and>
            fst (snd (read n (onDisconnect s))) = fst (snd (read n s)) \<and>
            rx_buffer (snd (snd (read n (onDisconnect s)))) = rx_buffer (snd (snd (read n s))) \<and>
            rx_buffer_head (snd (snd (read n (onDisconnect s)))) = rx_buffer_head (snd (snd (read n s)))"
    by (simp add: e read_def Let_def handle_call_def connected_def)
  obtain a b c where x: "read 1 s = (a, b, c)" by (cases "read 1 s")
  obtain a' b' c' where y: "read 1 (onDisconnect s) = (a', b', c')" by (cases "read 1 (onDisconnect s)")
  have "a' = a" "b' = b" using r[of 1] x y by simp_all
  then have rb: "fst (read_byte (onDisconnect s)) = fst (read_byte s)"
    unfolding read_byte_def x y by simp
  show ?thesis
    using w write_all_unbound[OF c, of ds] r[of len] rb
    by (simp add: e available_def peek_def)
qed

theorem onDisconnect_effect_witness:
  "connected s_busy \<and>
   onDisconnect s_busy = s_busy\<lparr>client := None, tx_buffer := [], tx_buffer_head := 0\<rparr> \<and>
   write_all [[7, 8], [9]] (onDisconnect s_busy) = Some ([0, 0], onDisconnect s_busy) \<and>
   available (onDisconnect s_busy) = 2 \<and> peek (onDisconnect s_busy) = 20 \<and>
   fst (read 5 (onDisconnect s_busy)) = 2 \<and> fst (snd (read 5 (onDisconnect s_busy))) = [20, 30]"
proof -
  have n: "SIZE_MOD = 4294967296" "INT_MAX = 2147483647" by (simp_all add: SIZE_MOD_def INT_MAX_def)
  have a: "available s_busy = 2" "peek s_busy = 20"
    by (simp_all add: available_def peek_def s_busy_def members_def size_sub_def to_int_def n)
  have r: "fst (read 5 s_busy) = 2" "fst (snd (read 5 s_busy)) = [20, 30]"
    by (simp_all add: read_def s_busy_def members_def size_sub_def to_int_def n Let_def)
  have c: "connected s_busy" by (simp add: connected_def s_busy_def members_def c_up_def)
  show ?thesis
    using onDisconnect_effect[of s_busy "[]" "[[7, 8], [9]]" 5] a r c
    by (elim conjE) (simp del: write_all.simps)
qed

subsection \<open>The wait parameter\<close>

text \<open>
  C8. \<open>stop\<close> returns \<open>True\<close> for every value of its parameter, and on a bound adapter
  its one call on the handle is \<open>Close True\<close>. Two calls of \<open>stop\<close>, or of \<open>flush\<close>, that
  differ only in the parameter return the same result and the same state (for \<open>flush\<close>
  also the same \<open>None\<close>, when the wait for the send window never ends).
\<close>

theorem stop_flush_maxWaitMs:
  "fst (stop maxWaitMs s) = True \<and>
   calls (snd (stop maxWaitMs s)) = calls s @ (if client s \<noteq> None then [Close True] else []) \<and>
   stop maxWaitMs s = stop maxWaitMs' s \<and>
   flush maxWaitMs s = flush maxWaitMs' s"
  by (simp add: stop_def flush_def ac_close_def handle_call_def Let_def)

theorem stop_flush_maxWaitMs_witness:
  "stop 0 s_busy = (True, s_busy\<lparr>client := Some (c_up\<lparr>ac_connected := False\<rparr>), calls := [Close True]\<rparr>) \<and>
   stop 5000 s_busy = stop 0 s_busy \<and>
   flush 5000 s_busy = flush 0 s_busy"
proof -
  have "stop 0 s_busy = (True, s_busy\<lparr>client := Some (c_up\<lparr>ac_connected := False\<rparr>), calls := [Close True]\<rparr>)"
    by (simp add: stop_def ac_close_def handle_call_def s_busy_def members_def Let_def)
  then show ?thesis
    using stop_flush_maxWaitMs[of 5000 s_busy 0] by simp
qed

subsection \<open>The shared counter\<close>

text \<open>
  The counter of an adapter is absent or at least 1, and below \<^verbatim>\<open>INT_MAX\<close>: it is set to
  1 when it is allocated, freed when it comes back to 0, and \<open>ref\<close> and \<open>unref\<close> are the
  only functions that change it.
\<close>

definition ref_ok :: "SyncClient \<Rightarrow> bool" where
  "ref_ok s = (case ref_count s of None \<Rightarrow> True | Some n \<Rightarrow> 1 \<le> n \<and> n < int INT_MAX)"

definition release_calls :: "SyncClient \<Rightarrow> call list" where
  \<comment> \<open>the calls of \<open>release\<close> on a bound adapter\<close>
  "release_calls s = (if client s \<noteq> None then [OnData False, OnAck False, OnPoll False, Abort] else [])"

lemma release_eq:
  "release s = s\<lparr>client := None, tx_buffer := [], tx_buffer_head := 0, rx_buffer := [],
                 rx_buffer_head := 0, calls := calls s @ release_calls s\<rparr>"
  by (simp add: release_def release_calls_def handle_call_def Let_def)

lemma destroy_cases:
  "destroy s =
     (case ref_count s of
        None \<Rightarrow> s
      | Some n \<Rightarrow> if n = 1 then release (s\<lparr>ref_count := None\<rparr>) else s\<lparr>ref_count := Some (n - 1)\<rparr>)"
  by (auto simp: destroy_def unref_def Let_def split: option.splits)

lemma destroy_funpow:
  assumes "ref_count s = Some (int n)" "0 < n"
  shows "(destroy ^^ k) s =
     (if k < n then s\<lparr>ref_count := Some (int n - int k)\<rparr> else release (s\<lparr>ref_count := None\<rparr>))"
proof (induction k)
  case 0
  then show ?case using assms by simp
next
  case (Suc k)
  show ?case
  proof (cases "k < n")
    case True
    then have "(destroy ^^ Suc k) s = destroy (s\<lparr>ref_count := Some (int n - int k)\<rparr>)"
      using Suc by simp
    also have "\<dots> = (if Suc k < n then s\<lparr>ref_count := Some (int n - int (Suc k))\<rparr>
                      else release (s\<lparr>ref_count := None\<rparr>))"
      using True by (auto simp: destroy_cases)
    finally show ?thesis .
  next
    case False
    then have "(destroy ^^ Suc k) s = destroy (release (s\<lparr>ref_count := None\<rparr>))"
      using Suc by simp
    also have "\<dots> = release (s\<lparr>ref_count := None\<rparr>)"
      by (simp add: destroy_cases release_eq)
    finally show ?thesis using False by simp
  qed
qed

text \<open>
  C7. \<open>ref\<close> returns \<open>-1\<close> exactly when the counter is absent and cannot be allocated, and
  then changes nothing; otherwise it returns the new count, which is the old count (0 for
  a counter just allocated) plus one, is positive, and is what the counter now holds.
  \<open>unref\<close> on a counter \<open>n\<close> returns \<open>n - 1\<close> and stores it, and frees the counter exactly
  when it returns 0. The destructor runs \<open>release\<close> exactly when \<open>unref\<close> returned 0;
  \<open>release\<close> detaches the data, acknowledgment and poll callbacks and aborts the handle
  (when there is one), drops the reference and empties both buffers. Of the destructors
  that run on a counter \<open>n\<close>, the first \<open>n - 1\<close> only count down, the \<open>n\<close>-th releases,
  and any later one changes nothing: one release, and none while the count is positive.
\<close>

theorem ref_unref_release:
  assumes "ref_ok s"
  shows "(fst (ref alloc s) = - 1) = (ref_count s = None \<and> \<not> alloc) \<and>
         (fst (ref alloc s) = - 1 \<longrightarrow> snd (ref alloc s) = s) \<and>
         (fst (ref alloc s) \<noteq> - 1 \<longrightarrow>
            0 < fst (ref alloc s) \<and>
            fst (ref alloc s) = (case ref_count s of None \<Rightarrow> 0 | Some n \<Rightarrow> n) + 1 \<and>
            snd (ref alloc s) = s\<lparr>ref_count := Some (fst (ref alloc s))\<rparr>) \<and>
         (\<forall>n. ref_count s = Some n \<longrightarrow>
            unref s = (n - 1, s\<lparr>ref_count := (if n - 1 = 0 then None else Some (n - 1))\<rparr>)) \<and>
         (fst (unref s) = 0) = (ref_count s \<noteq> None \<and> ref_count (snd (unref s)) = None) \<and>
         destroy s = (if fst (unref s) = 0 then release (snd (unref s)) else snd (unref s)) \<and>
         release s = s\<lparr>client := None, tx_buffer := [], tx_buffer_head := 0, rx_buffer := [],
                       rx_buffer_head := 0, calls := calls s @ release_calls s\<rparr> \<and>
         (\<forall>n k. ref_count s = Some (int n) \<longrightarrow>
            (destroy ^^ k) s =
              (if k < n then s\<lparr>ref_count := Some (int n - int k)\<rparr>
               else release (s\<lparr>ref_count := None\<rparr>)))"
proof -
  have r1: "(fst (ref alloc s) = - 1) = (ref_count s = None \<and> \<not> alloc)"
    using assms by (auto simp: ref_def ref_ok_def split: option.splits)
  have r2: "fst (ref alloc s) = - 1 \<longrightarrow> snd (ref alloc s) = s"
    using assms by (auto simp: ref_def ref_ok_def split: option.splits)
  have r3: "fst (ref alloc s) \<noteq> - 1 \<longrightarrow>
            0 < fst (ref alloc s) \<and>
            fst (ref alloc s) = (case ref_count s of None \<Rightarrow> 0 | Some n \<Rightarrow> n) + 1 \<and>
            snd (ref alloc s) = s\<lparr>ref_count := Some (fst (ref alloc s))\<rparr>"
    using assms by (auto simp: ref_def ref_ok_def split: option.splits)
  have u1: "\<forall>n. ref_count s = Some n \<longrightarrow>
            unref s = (n - 1, s\<lparr>ref_count := (if n - 1 = 0 then None else Some (n - 1))\<rparr>)"
    by (simp add: unref_def Let_def)
  have u2: "(fst (unref s) = 0) = (ref_count s \<noteq> None \<and> ref_count (snd (unref s)) = None)"
    by (auto simp: unref_def Let_def split: option.splits)
  have d1: "destroy s = (if fst (unref s) = 0 then release (snd (unref s)) else snd (unref s))"
    by (simp add: destroy_def split: prod.splits)
  have d2: "\<forall>n k. ref_count s = Some (int n) \<longrightarrow>
            (destroy ^^ k) s =
              (if k < n then s\<lparr>ref_count := Some (int n - int k)\<rparr>
               else release (s\<lparr>ref_count := None\<rparr>))"
  proof (intro allI impI)
    fix n k assume c: "ref_count s = Some (int n)"
    then have "0 < n" using assms by (simp add: ref_ok_def)
    from destroy_funpow[OF c this]
    show "(destroy ^^ k) s =
              (if k < n then s\<lparr>ref_count := Some (int n - int k)\<rparr>
               else release (s\<lparr>ref_count := None\<rparr>))" .
  qed
  from r1 r2 r3 u1 u2 d1 release_eq[of s] d2 show ?thesis by blast
qed

definition s_shared :: SyncClient where
  \<comment> \<open>the adapter \<open>s_busy\<close> with a counter that two adapters hold\<close>
  "s_shared = s_busy\<lparr>ref_count := Some 2\<rparr>"

theorem ref_unref_release_witness:
  "ref_ok s_shared \<and>
   ref True s_shared = (3, s_shared\<lparr>ref_count := Some 3\<rparr>) \<and>
   unref s_shared = (1, s_shared\<lparr>ref_count := Some 1\<rparr>) \<and>
   destroy s_shared = s_shared\<lparr>ref_count := Some 1\<rparr> \<and>
   destroy (destroy s_shared) =
     s_shared\<lparr>ref_count := None, client := None, tx_buffer := [], tx_buffer_head := 0,
              rx_buffer := [], rx_buffer_head := 0,
              calls := [OnData False, OnAck False, OnPoll False, Abort]\<rparr> \<and>
   destroy (destroy (destroy s_shared)) = destroy (destroy s_shared) \<and>
   ref_ok (members None 4 [] []) \<and>
   ref False (members None 4 [] []) = (- 1, members None 4 [] []) \<and>
   ref True (members None 4 [] []) = (1, (members None 4 [] [])\<lparr>ref_count := Some 1\<rparr>)"
proof -
  have ok: "ref_ok s_shared" "ref_ok (members None 4 [] [])"
    by (simp_all add: ref_ok_def s_shared_def s_busy_def members_def INT_MAX_def)
  have rc: "ref_count s_shared = Some (int 2)" by (simp add: s_shared_def)
  note t = ref_unref_release[OF ok(1), of True]
  have u: "unref s_shared = (1, s_shared\<lparr>ref_count := Some 1\<rparr>)"
    using t rc by simp
  have d1: "destroy s_shared = s_shared\<lparr>ref_count := Some 1\<rparr>"
    using t u by simp
  have d2: "(destroy ^^ 2) s_shared = release (s_shared\<lparr>ref_count := None\<rparr>)"
    using t rc by (metis less_irrefl)
  have d3: "(destroy ^^ 3) s_shared = release (s_shared\<lparr>ref_count := None\<rparr>)"
    using t rc by (metis less_irrefl numeral_2_eq_2 numeral_3_eq_3 less_SucI)
  have rl: "release (s_shared\<lparr>ref_count := None\<rparr>) =
     s_shared\<lparr>ref_count := None, client := None, tx_buffer := [], tx_buffer_head := 0,
              rx_buffer := [], rx_buffer_head := 0,
              calls := [OnData False, OnAck False, OnPoll False, Abort]\<rparr>"
    by (simp add: release_eq release_calls_def s_shared_def s_busy_def members_def)
  have r: "ref True s_shared = (3, s_shared\<lparr>ref_count := Some 3\<rparr>)"
    by (simp add: ref_def s_shared_def)
  have r0: "ref False (members None 4 [] []) = (- 1, members None 4 [] [])"
    "ref True (members None 4 [] []) = (1, (members None 4 [] [])\<lparr>ref_count := Some 1\<rparr>)"
    by (simp_all add: ref_def members_def)
  have "destroy (destroy s_shared) = (destroy ^^ 2) s_shared"
    "destroy (destroy (destroy s_shared)) = (destroy ^^ 3) s_shared"
    by (simp_all add: numeral_2_eq_2 numeral_3_eq_3)
  then show ?thesis using ok u d1 d2 d3 rl r r0 by simp
qed

text \<open>
  C10. Without a counter (never allocated, or freed by the \<open>unref\<close> that returned 0)
  \<open>unref\<close> returns \<open>-1\<close> and the state it was given, and the destructor returns the state
  it was given: no call on the handle, both buffers and the reference as they were.
\<close>

theorem unref_absent:
  "(ref_count s = None \<longrightarrow> unref s = (- 1, s) \<and> destroy s = s) \<and>
   (ref_count s = Some 1 \<longrightarrow>
      fst (unref s) = 0 \<and> unref (snd (unref s)) = (- 1, snd (unref s)) \<and>
      destroy (snd (unref s)) = snd (unref s))"
  by (simp add: unref_def destroy_def Let_def)

theorem unref_absent_witness:
  "ref_count (s_busy\<lparr>ref_count := None\<rparr>) = None \<and>
   unref (s_busy\<lparr>ref_count := None\<rparr>) = (- 1, s_busy\<lparr>ref_count := None\<rparr>) \<and>
   destroy (s_busy\<lparr>ref_count := None\<rparr>) = s_busy\<lparr>ref_count := None\<rparr> \<and>
   client (destroy (s_busy\<lparr>ref_count := None\<rparr>)) = Some c_up \<and>
   tx_buffer (destroy (s_busy\<lparr>ref_count := None\<rparr>)) = [1, 2, 3] \<and>
   rx_buffer (destroy (s_busy\<lparr>ref_count := None\<rparr>)) = [10, 20, 30] \<and>
   calls (destroy (s_busy\<lparr>ref_count := None\<rparr>)) = [] \<and>
   ref_count s_busy = Some 1 \<and>
   unref (snd (unref s_busy)) = (- 1, s_busy\<lparr>ref_count := None\<rparr>)"
proof -
  have a: "ref_count (s_busy\<lparr>ref_count := None\<rparr>) = None" by simp
  have b: "ref_count s_busy = Some 1" by (simp add: s_busy_def)
  have c: "snd (unref s_busy) = s_busy\<lparr>ref_count := None\<rparr>" by (simp add: unref_def b)
  show ?thesis
    using unref_absent[of "s_busy\<lparr>ref_count := None\<rparr>"] unref_absent[of s_busy] a b c
    by (simp add: s_busy_def members_def)
qed

subsection \<open>The drain helper\<close>

lemma chunk_unsent: "chunk s = take (min (space s) (length (unsent s))) (unsent s)"
  by (simp add: chunk_def unsent_def)

lemma unsent_drained [simp]: "unsent (drained s) = unsent s"
  by (simp add: drained_def unsent_def)

lemma wire_drained [simp]: "wire (drained s) = wire s"
  by (simp add: drained_def)

lemma drain_step:
  assumes "ac_write (chunk s) s = (sent, s1)"
  shows "sent \<le> length (chunk s)" "sent \<le> length (unsent s)"
    "wire (advance sent s1) = wire s @ take sent (unsent s)"
    "unsent (advance sent s1) = drop sent (unsent s)"
    "tx_buffer (advance sent s1) = tx_buffer s"
    "tx_buffer_head (advance sent s1) = tx_buffer_head s + sent"
    "calls (advance sent s1) = calls s @ [Write (chunk s)]"
proof -
  note f = ac_write_frame[OF assms]
  show a: "sent \<le> length (chunk s)" by (rule f(1))
  then show b: "sent \<le> length (unsent s)" by (simp add: chunk_unsent)
  have "min sent (min (space s) (length (unsent s))) = sent"
    using a by (simp add: chunk_unsent)
  then have "take sent (chunk s) = take sent (unsent s)"
    by (simp add: chunk_unsent)
  then show "wire (advance sent s1) = wire s @ take sent (unsent s)"
    using f(9) by (simp add: advance_def)
  show "unsent (advance sent s1) = drop sent (unsent s)"
    using f(2,3) by (simp add: advance_def unsent_def add.commute)
  show "tx_buffer (advance sent s1) = tx_buffer s" using f(2) by (simp add: advance_def)
  show "tx_buffer_head (advance sent s1) = tx_buffer_head s + sent" using f(3) by (simp add: advance_def)
  show "calls (advance sent s1) = calls s @ [Write (chunk s)]" using f(10) by (simp add: advance_def)
qed

lemma drain_induct [case_names step]:
  assumes "\<And>s. (\<And>sent s1. sending s \<Longrightarrow> ac_write (chunk s) s = (sent, s1) \<Longrightarrow>
                     sent = length (chunk s) \<Longrightarrow> P (drained (advance sent s1))) \<Longrightarrow> P s"
  shows "P s"
  using assms by (rule sendBuffer_loop_induct[of "\<lambda>t s. P s" 0 s])

lemma sendBuffer_loop_acc_all:
  "\<forall>t. sendBuffer_loop t s = (t + fst (sendBuffer_loop 0 s), snd (sendBuffer_loop 0 s))"
proof (induction s rule: drain_induct)
  case (step s)
  show ?case
  proof (cases "sending s")
    case False
    then show ?thesis by (simp add: sendBuffer_loop_stop)
  next
    case True
    obtain sent s1 where w: "ac_write (chunk s) s = (sent, s1)" by (cases "ac_write (chunk s) s")
    show ?thesis
    proof (cases "sent = length (chunk s)")
      case False
      then show ?thesis using True w by (simp add: sendBuffer_loop_go)
    next
      case e: True
      let ?s2 = "drained (advance sent s1)"
      note ih = step.IH[OF True w e, rule_format]
      have c: "\<And>t. sendBuffer_loop t s = sendBuffer_loop (t + sent) ?s2"
        using True w e by (simp add: sendBuffer_loop_go)
      show ?thesis
      proof
        fix t
        show "sendBuffer_loop t s = (t + fst (sendBuffer_loop 0 s), snd (sendBuffer_loop 0 s))"
          unfolding c[of t] c[of 0] ih[of "t + sent"] ih[of "0 + sent"] by simp
      qed
    qed
  qed
qed

lemma sendBuffer_loop_acc:
  "sendBuffer_loop t s = (t + fst (sendBuffer_loop 0 s), snd (sendBuffer_loop 0 s))"
  using sendBuffer_loop_acc_all by blast

definition drain_post :: "SyncClient \<Rightarrow> nat \<Rightarrow> SyncClient \<Rightarrow> bool" where
  \<comment> \<open>\<open>n\<close> unsent bytes have moved, in order, from the buffer of \<open>s\<close> to the wire\<close>
  "drain_post s n s' =
     (n \<le> length (unsent s) \<and> wire s' = wire s @ take n (unsent s) \<and>
      unsent s' = drop n (unsent s) \<and>
      (if 0 < n \<and> n = length (unsent s)
       then tx_buffer s' = [] \<and> tx_buffer_head s' = 0
       else tx_buffer s' = tx_buffer s \<and> tx_buffer_head s' = tx_buffer_head s + n))"

lemma drain_post_zero [simp]: "drain_post s 0 s"
  by (simp add: drain_post_def)

lemma length_unsent: "length (unsent s) = length (tx_buffer s) - tx_buffer_head s"
  by (simp add: unsent_def)

lemma drain_post_short:
  assumes "sending s" "ac_write (chunk s) s = (sent, s1)" "sent \<noteq> length (chunk s)"
  shows "drain_post s sent (advance sent s1)"
proof -
  note d = drain_step[OF assms(2)]
  have "sent < length (chunk s)" using d(1) assms(3) by simp
  then have "sent < length (unsent s)" by (simp add: chunk_unsent)
  then show ?thesis using d by (simp add: drain_post_def)
qed

lemma drain_post_more:
  assumes "sending s" "ac_write (chunk s) s = (sent, s1)" "sent = length (chunk s)"
    and ih: "drain_post (drained (advance sent s1)) n2 s'"
  shows "drain_post s (sent + n2) s'"
proof -
  let ?s2 = "drained (advance sent s1)"
  let ?U = "unsent s"
  note d = drain_step[OF assms(2)]
  have pos: "0 < sent" using chunk_pos[OF assms(1)] assms(3) by simp
  have lt: "tx_buffer_head s < length (tx_buffer s)" using assms(1) by (simp add: sending_def)
  have u2: "unsent ?s2 = drop sent ?U" using d(4) by simp
  have w2: "wire ?s2 = wire s @ take sent ?U" using d(3) by simp
  have n2: "n2 \<le> length ?U - sent" using ih u2 by (simp add: drain_post_def)
  have le: "sent + n2 \<le> length ?U" using n2 d(2) by simp
  have w: "wire s' = wire s @ take (sent + n2) ?U"
    using ih u2 w2 by (simp add: drain_post_def take_add)
  have u: "unsent s' = drop (sent + n2) ?U"
    using ih u2 by (simp add: drain_post_def add.commute)
  show ?thesis
  proof (cases "sent = length ?U")
    case True
    then have "tx_buffer_head (advance sent s1) = length (tx_buffer (advance sent s1))"
      using d(5,6) lt by (simp add: length_unsent)
    then have e: "tx_buffer ?s2 = []" "tx_buffer_head ?s2 = 0"
      by (simp_all add: drained_def)
    have z: "n2 = 0" using n2 True by simp
    have "tx_buffer s' = [] \<and> tx_buffer_head s' = 0"
      using ih e z by (simp add: drain_post_def)
    then show ?thesis using le w u True z pos by (simp add: drain_post_def)
  next
    case False
    then have "tx_buffer_head (advance sent s1) \<noteq> length (tx_buffer (advance sent s1))"
      using d(5,6) lt by (simp add: length_unsent)
    then have e: "?s2 = advance sent s1" by (simp add: drained_def)
    have l2: "length (unsent ?s2) = length ?U - sent" using u2 by simp
    have ne: "0 < length ?U - sent" using False d(2) by simp
    show ?thesis
    proof (cases "n2 = length ?U - sent")
      case True
      then have "tx_buffer s' = [] \<and> tx_buffer_head s' = 0"
        using ih l2 ne by (simp add: drain_post_def)
      moreover have "?U \<noteq> []" "sent + n2 = length ?U" using ne True by auto
      ultimately show ?thesis using le w u by (simp add: drain_post_def)
    next
      case n: False
      then have "tx_buffer s' = tx_buffer ?s2 \<and> tx_buffer_head s' = tx_buffer_head ?s2 + n2"
        using ih l2 by (simp add: drain_post_def)
      then have "tx_buffer s' = tx_buffer s \<and> tx_buffer_head s' = tx_buffer_head s + (sent + n2)"
        using d(5,6) e by simp
      moreover have "sent + n2 \<noteq> length ?U" using n d(2) by arith
      ultimately show ?thesis using le w u by (simp add: drain_post_def)
    qed
  qed
qed

lemma sendBuffer_loop_post:
  "drain_post s (fst (sendBuffer_loop 0 s)) (snd (sendBuffer_loop 0 s))"
proof (induction s rule: drain_induct)
  case (step s)
  show ?case
  proof (cases "sending s")
    case False
    then show ?thesis by (simp add: sendBuffer_loop_stop)
  next
    case True
    obtain sent s1 where w: "ac_write (chunk s) s = (sent, s1)" by (cases "ac_write (chunk s) s")
    show ?thesis
    proof (cases "sent = length (chunk s)")
      case False
      have "sendBuffer_loop 0 s = (sent, advance sent s1)"
        using True w False by (simp add: sendBuffer_loop_go)
      then show ?thesis using drain_post_short[OF True w False] by simp
    next
      case e: True
      let ?s2 = "drained (advance sent s1)"
      have "sendBuffer_loop 0 s = sendBuffer_loop (0 + sent) ?s2"
        using True w e sendBuffer_loop_go[OF True, of 0] by simp
      also have "\<dots> = (sent + fst (sendBuffer_loop 0 ?s2), snd (sendBuffer_loop 0 ?s2))"
        using sendBuffer_loop_acc[of "0 + sent" ?s2] by simp
      finally show ?thesis
        using drain_post_more[OF True w e step.IH[OF True w e]] by simp
    qed
  qed
qed

lemma sendBuffer_post: "drain_post s (fst (sendBuffer s)) (snd (sendBuffer s))"
  using sendBuffer_loop_post[of s] by (simp add: sendBuffer_def)

lemma sendBuffer_loop0: "sendBuffer s = sendBuffer_loop 0 s"
proof (cases "sending s")
  case True
  then show ?thesis by (auto simp: sendBuffer_def sending_def connected_def split: option.splits)
next
  case False
  then have "sendBuffer s = (0, s)" by (auto simp: sendBuffer_def sending_def)
  then show ?thesis using False by (simp add: sendBuffer_loop_stop)
qed

definition s_tx :: SyncClient where
  \<comment> \<open>four unsent bytes, a send window of three bytes, and a transport that will take
      three bytes (leaving a window of two) and then one\<close>
  "s_tx = (members (Some (c_up\<lparr>ac_space := 3\<rparr>)) 8 [(3, c_up\<lparr>ac_space := 2\<rparr>), (1, c_up)] [])
     \<lparr>tx_buffer := [1, 2, 3, 4, 5], tx_buffer_head := 1\<rparr>"

lemma s_tx_sendBuffer:
  "sendBuffer s_tx = (4, s_tx\<lparr>client := Some c_up, tx_buffer := [], tx_buffer_head := 0,
     wire := [2, 3, 4, 5], calls := [Write [2, 3, 4], Write [5]], replies := []\<rparr>)"
  by (simp add: sendBuffer_def sendBuffer_loop.simps s_tx_def members_def c_up_def connected_def
      canSend_def ac_canSend_def space_def ac_write_def handle_call_def Let_def)

text \<open>
  C4. One call of the drain helper. When the adapter is not connected (or has no handle),
  the handle cannot send, or no unsent byte remains, it returns 0 and changes nothing.
  Otherwise the first push offers the handle the next
  \<open>min (size - head) (send window)\<close> unsent bytes; the head moves by what the handle
  took; if that is less than what was offered the call ends, and if not the buffer is
  reset when its head has reached its size and the call goes on as a call on the new
  state would. In all, the \<open>n\<close> bytes the call returns are the first \<open>n\<close> unsent bytes, now
  at the end of the wire in their order; the bytes after them are the unsent bytes left;
  and the buffer is empty with head 0 if the call has sent all of them, and otherwise is
  the old buffer with the head moved by \<open>n\<close>.
\<close>

theorem sendBuffer_drain:
  "(\<not> sending s \<longrightarrow> sendBuffer s = (0, s)) \<and>
   (sending s \<longrightarrow>
      chunk s = take (min (length (tx_buffer s) - tx_buffer_head s) (space s))
                  (drop (tx_buffer_head s) (tx_buffer s)) \<and>
      (case ac_write (chunk s) s of
         (sent, s1) \<Rightarrow>
           sent \<le> length (chunk s) \<and>
           calls s1 = calls s @ [Write (chunk s)] \<and>
           wire s1 = wire s @ take sent (chunk s) \<and>
           tx_buffer_head (advance sent s1) = tx_buffer_head s + sent \<and>
           sendBuffer s =
             (if sent < length (chunk s) then (sent, advance sent s1)
              else (sent + fst (sendBuffer (drained (advance sent s1))),
                    snd (sendBuffer (drained (advance sent s1))))))) \<and>
   (case sendBuffer s of
      (n, s') \<Rightarrow>
        n \<le> length (unsent s) \<and>
        n = length (wire s') - length (wire s) \<and>
        wire s' = wire s @ take n (unsent s) \<and>
        unsent s' = drop n (unsent s) \<and>
        (if 0 < n \<and> n = length (unsent s)
         then tx_buffer s' = [] \<and> tx_buffer_head s' = 0
         else tx_buffer s' = tx_buffer s \<and> tx_buffer_head s' = tx_buffer_head s + n))"
proof -
  have a: "\<not> sending s \<longrightarrow> sendBuffer s = (0, s)"
    by (simp add: sendBuffer_loop0 sendBuffer_loop_stop)
  have b: "sending s \<longrightarrow>
      chunk s = take (min (length (tx_buffer s) - tx_buffer_head s) (space s))
                  (drop (tx_buffer_head s) (tx_buffer s)) \<and>
      (case ac_write (chunk s) s of
         (sent, s1) \<Rightarrow>
           sent \<le> length (chunk s) \<and>
           calls s1 = calls s @ [Write (chunk s)] \<and>
           wire s1 = wire s @ take sent (chunk s) \<and>
           tx_buffer_head (advance sent s1) = tx_buffer_head s + sent \<and>
           sendBuffer s =
             (if sent < length (chunk s) then (sent, advance sent s1)
              else (sent + fst (sendBuffer (drained (advance sent s1))),
                    snd (sendBuffer (drained (advance sent s1))))))"
  proof
    assume g: "sending s"
    obtain sent s1 where w: "ac_write (chunk s) s = (sent, s1)" by (cases "ac_write (chunk s) s")
    note f = ac_write_frame[OF w]
    note d = drain_step[OF w]
    have c: "chunk s = take (min (length (tx_buffer s) - tx_buffer_head s) (space s))
                  (drop (tx_buffer_head s) (tx_buffer s))"
      by (simp add: chunk_def min.commute)
    have e: "sendBuffer s =
             (if sent < length (chunk s) then (sent, advance sent s1)
              else (sent + fst (sendBuffer (drained (advance sent s1))),
                    snd (sendBuffer (drained (advance sent s1)))))"
    proof (cases "sent = length (chunk s)")
      case True
      have "sendBuffer s = sendBuffer_loop (0 + sent) (drained (advance sent s1))"
        using g w True sendBuffer_loop_go[OF g, of 0] by (simp add: sendBuffer_loop0)
      then show ?thesis
        using True sendBuffer_loop_acc[of "0 + sent" "drained (advance sent s1)"]
        by (simp add: sendBuffer_loop0)
    next
      case False
      then have "sent < length (chunk s)" using f(1) by simp
      then show ?thesis
        using g w sendBuffer_loop_go[OF g, of 0] by (simp add: sendBuffer_loop0)
    qed
    show "chunk s = take (min (length (tx_buffer s) - tx_buffer_head s) (space s))
                  (drop (tx_buffer_head s) (tx_buffer s)) \<and>
      (case ac_write (chunk s) s of
         (sent, s1) \<Rightarrow>
           sent \<le> length (chunk s) \<and>
           calls s1 = calls s @ [Write (chunk s)] \<and>
           wire s1 = wire s @ take sent (chunk s) \<and>
           tx_buffer_head (advance sent s1) = tx_buffer_head s + sent \<and>
           sendBuffer s =
             (if sent < length (chunk s) then (sent, advance sent s1)
              else (sent + fst (sendBuffer (drained (advance sent s1))),
                    snd (sendBuffer (drained (advance sent s1))))))"
      unfolding w prod.case using c e f(1,9,10) d(6) by blast
  qed
  obtain n s' where r: "sendBuffer s = (n, s')" by (cases "sendBuffer s")
  have p: "drain_post s n s'" using sendBuffer_post[of s] r by simp
  then have "n = length (wire s') - length (wire s)" by (simp add: drain_post_def)
  then have c: "case sendBuffer s of
      (n, s') \<Rightarrow>
        n \<le> length (unsent s) \<and>
        n = length (wire s') - length (wire s) \<and>
        wire s' = wire s @ take n (unsent s) \<and>
        unsent s' = drop n (unsent s) \<and>
        (if 0 < n \<and> n = length (unsent s)
         then tx_buffer s' = [] \<and> tx_buffer_head s' = 0
         else tx_buffer s' = tx_buffer s \<and> tx_buffer_head s' = tx_buffer_head s + n)"
    using p unfolding r drain_post_def prod.case by blast
  from a b c show ?thesis by blast
qed

theorem sendBuffer_drain_witness:
  "sending s_tx \<and> chunk s_tx = [2, 3, 4] \<and>
   sendBuffer s_tx = (4, s_tx\<lparr>client := Some c_up, tx_buffer := [], tx_buffer_head := 0,
     wire := [2, 3, 4, 5], calls := [Write [2, 3, 4], Write [5]], replies := []\<rparr>) \<and>
   unsent s_tx = [2, 3, 4, 5] \<and>
   \<not> sending (s_tx\<lparr>client := Some c_down\<rparr>) \<and>
   sendBuffer (s_tx\<lparr>client := Some c_down\<rparr>) = (0, s_tx\<lparr>client := Some c_down\<rparr>)"
proof -
  have g: "sending s_tx"
    by (simp add: sending_def s_tx_def members_def connected_def canSend_def ac_canSend_def c_up_def)
  have ng: "\<not> sending (s_tx\<lparr>client := Some c_down\<rparr>)"
    by (simp add: sending_def connected_def c_down_def)
  have c: "chunk s_tx = [2, 3, 4]"
    by (simp add: chunk_def s_tx_def members_def space_def c_up_def)
  have u: "unsent s_tx = [2, 3, 4, 5]" by (simp add: unsent_def s_tx_def members_def)
  show ?thesis
    using sendBuffer_drain[of s_tx] sendBuffer_drain[of "s_tx\<lparr>client := Some c_down\<rparr>"]
      g ng c u s_tx_sendBuffer
    by simp
qed

subsection \<open>Rules for the loops of the write path\<close>

lemma await_canSend_done: "\<not> (connected s \<and> \<not> canSend s) \<Longrightarrow> await_canSend s = Some s"
  by (subst await_canSend.simps) (simp only: if_False)

lemma await_canSend_wait:
  "connected s \<and> \<not> canSend s \<Longrightarrow>
     await_canSend s = (if pending s = [] then None else await_canSend (delay s))"
  by (subst await_canSend.simps) (simp only: if_True simp_thms)

lemma await_canSend_rule:
  assumes d: "\<And>s. I s \<Longrightarrow> I (delay s)"
    and "I s" "await_canSend s = Some s1"
  shows "I s1 \<and> \<not> (connected s1 \<and> \<not> canSend s1)"
  using assms(2,3)
proof (induction s rule: await_canSend.induct)
  case (1 s)
  show ?case
  proof (cases "connected s \<and> \<not> canSend s")
    case True
    then have p: "pending s \<noteq> []" and a: "await_canSend (delay s) = Some s1"
      using "1.prems"(2) by (auto simp: await_canSend_wait split: if_splits)
    show ?thesis using "1.IH"[OF True p d[OF "1.prems"(1)] a] .
  next
    case False
    then have "s1 = s" using "1.prems"(2) by (simp add: await_canSend_done)
    then show ?thesis using False "1.prems"(1) by simp
  qed
qed

lemma delay_rule:
  assumes "\<And>ev s. I s \<Longrightarrow> I (deliver ev s)" "\<And>s p. I s \<Longrightarrow> I (s\<lparr>pending := p\<rparr>)" "I s"
  shows "I (delay s)"
proof -
  have "\<And>s. I s \<Longrightarrow> I (fold deliver evs s)" for evs
    by (induction evs) (simp_all add: assms(1))
  then show ?thesis using assms(2,3) by (simp add: delay_def split: list.splits)
qed

lemma write_loop_rule:
  assumes aw: "\<And>w s s1. J w s \<Longrightarrow> await_canSend s = Some s1 \<Longrightarrow> J w s1"
    and sb: "\<And>w s. J w s \<Longrightarrow> J w (snd (sendBuffer s))"
    and ins: "\<And>w s k. J w s \<Longrightarrow> w < length data \<Longrightarrow> 0 < k \<Longrightarrow> k \<le> tx_space s \<Longrightarrow>
                k \<le> length data - w \<Longrightarrow> J (w + k) (tx_insert (take k (drop w data)) s)"
    and "J written s" "write_loop data written s = Some (n, s')"
  shows "J n s'"
  using assms(4,5)
proof (induction "length data - written" arbitrary: written s rule: less_induct)
  case less
  note j = less.prems(1) and res = less.prems(2)
  have finish: "\<And>w t. J w t \<Longrightarrow> write_finish w t = (n, s') \<Longrightarrow> J n s'"
    using sb by (auto simp: write_finish_def split: if_splits)
  have again: "\<And>k t. 0 < k \<Longrightarrow> k \<le> length data - written \<Longrightarrow> written < length data \<Longrightarrow>
      J (written + k) t \<Longrightarrow> write_loop data (written + k) t = Some (n, s') \<Longrightarrow> J n s'"
  proof -
    fix k t
    assume "0 < k" "k \<le> length data - written" "written < length data"
      and a: "J (written + k) t" "write_loop data (written + k) t = Some (n, s')"
    then have "length data - (written + k) < length data - written" by arith
    then show "J n s'" using a by (rule less.hyps)
  qed
  show ?case
  proof (cases "written < length data")
    case False
    then have "write_finish written s = (n, s')"
      using res by (subst (asm) write_loop.simps) simp
    then show ?thesis using finish j by blast
  next
    case lt: True
    show ?thesis
    proof (cases "tx_space s = 0")
      case False
      define k where "k = min (tx_space s) (length data - written)"
      have k: "0 < k" "k \<le> tx_space s" "k \<le> length data - written"
        using False lt by (simp_all add: k_def)
      have r: "write_loop data (written + k) (tx_insert (take k (drop written data)) s) = Some (n, s')"
        using res lt False
        by (subst (asm) write_loop.simps) (simp add: Let_def k_def)
      show ?thesis
        using again[OF k(1,3) lt ins[OF j lt k] r] .
    next
      case full: True
      obtain s1 where a: "await_canSend s = Some s1"
        using res lt full
        by (subst (asm) write_loop.simps) (simp split: option.splits)
      have j1: "J written s1" using aw[OF j a] .
      show ?thesis
      proof (cases "connected s1")
        case False
        then have "(n, s') = (written, s1)"
          using res lt full a by (subst (asm) write_loop.simps) simp
        then show ?thesis using j1 by simp
      next
        case c: True
        define s2 where "s2 = snd (sendBuffer s1)"
        have j2: "J written s2" using sb[OF j1] by (simp add: s2_def)
        show ?thesis
        proof (cases "tx_space s2 = 0")
          case True
          then have "write_finish written s2 = (n, s')"
            using res lt full a c
            by (subst (asm) write_loop.simps) (simp add: Let_def s2_def)
          then show ?thesis using finish j2 by blast
        next
          case False
          define k where "k = min (tx_space s2) (length data - written)"
          have k: "0 < k" "k \<le> tx_space s2" "k \<le> length data - written"
            using False lt by (simp_all add: k_def)
          have r: "write_loop data (written + k) (tx_insert (take k (drop written data)) s2) = Some (n, s')"
            using res lt full a c False
            by (subst (asm) write_loop.simps) (simp add: Let_def k_def s2_def)
          show ?thesis
            using again[OF k(1,3) lt ins[OF j2 lt k] r] .
        qed
      qed
    qed
  qed
qed

subsection \<open>The invariant of the send buffer\<close>

definition tx_inv :: "SyncClient \<Rightarrow> bool" where
  "tx_inv s = (tx_buffer_head s \<le> length (tx_buffer s) \<and>
               length (tx_buffer s) - tx_buffer_head s \<le> tx_buffer_size s)"

lemma tx_inv_sendBuffer:
  assumes "tx_inv s"
  shows "tx_inv (snd (sendBuffer s))"
proof -
  obtain n s' where r: "sendBuffer s = (n, s')" by (cases "sendBuffer s")
  have p: "drain_post s n s'" using sendBuffer_post[of s] r by simp
  have c: "tx_buffer_size s' = tx_buffer_size s"
    using sendBuffer_same_rest[OF r] by (simp add: same_rest_def)
  have n: "n \<le> length (tx_buffer s) - tx_buffer_head s"
    using p by (simp add: drain_post_def length_unsent)
  have "tx_inv s'"
  proof (cases "0 < n \<and> n = length (unsent s)")
    case True
    then have "tx_buffer s' = [] \<and> tx_buffer_head s' = 0"
      using p unfolding drain_post_def by presburger
    then show ?thesis by (simp add: tx_inv_def)
  next
    case False
    then have "tx_buffer s' = tx_buffer s \<and> tx_buffer_head s' = tx_buffer_head s + n"
      using p unfolding drain_post_def by presburger
    moreover have "tx_buffer_head s + n \<le> length (tx_buffer s) \<and>
        length (tx_buffer s) - (tx_buffer_head s + n) \<le> tx_buffer_size s"
      using assms n unfolding tx_inv_def by arith
    ultimately show ?thesis using c unfolding tx_inv_def by simp
  qed
  then show ?thesis using r by simp
qed

lemma tx_inv_cleared [simp]:
  "tx_inv (s\<lparr>tx_buffer := [], tx_buffer_head := 0\<rparr>)"
  by (simp add: tx_inv_def)

lemma tx_inv_frame:
  "tx_buffer s' = tx_buffer s \<Longrightarrow> tx_buffer_head s' = tx_buffer_head s \<Longrightarrow>
   tx_buffer_size s' = tx_buffer_size s \<Longrightarrow> tx_inv s' = tx_inv s"
  by (simp add: tx_inv_def)

lemma tx_inv_onDisconnect: "tx_inv (onDisconnect s)"
  by (simp add: onDisconnect_def tx_inv_def)

lemma tx_inv_onConnect: "tx_inv (onConnect c s)"
  by (simp add: onConnect_def attachCallbacks_AfterConnected_def handle_call_def tx_inv_def)

lemma tx_inv_release: "tx_inv (release s)"
  by (simp add: release_eq tx_inv_def)

lemma tx_inv_onData: "tx_inv (onData bs ok s) = tx_inv s"
  by (rule tx_inv_frame) (simp_all add: onData_def handle_call_def Let_def)

lemma tx_inv_deliver:
  assumes "tx_inv s"
  shows "tx_inv (deliver ev s)"
proof (cases "client s")
  case None
  then show ?thesis using assms by (simp add: deliver_def)
next
  case (Some c)
  show ?thesis
  proof (cases ev)
    case (Link c')
    then show ?thesis using assms Some by (simp add: deliver_def tx_inv_def)
  next
    case Acked
    then show ?thesis using tx_inv_sendBuffer[OF assms] Some by (simp add: deliver_def)
  next
    case (Data bs ok)
    then show ?thesis using assms Some by (simp add: deliver_def tx_inv_onData)
  next
    case Timeout
    then show ?thesis using assms Some by (simp add: deliver_def handle_call_def tx_inv_def)
  next
    case Disconnect
    then show ?thesis using Some by (simp add: deliver_def tx_inv_onDisconnect)
  qed
qed

lemma tx_inv_delay:
  assumes "tx_inv s"
  shows "tx_inv (delay s)"
proof (rule delay_rule[of tx_inv])
  show "\<And>ev s. tx_inv s \<Longrightarrow> tx_inv (deliver ev s)" by (rule tx_inv_deliver)
  show "\<And>s p. tx_inv s \<Longrightarrow> tx_inv (s\<lparr>pending := p\<rparr>)" by (simp add: tx_inv_def)
  show "tx_inv s" by (rule assms)
qed

lemma tx_inv_await: "tx_inv s \<Longrightarrow> await_canSend s = Some s1 \<Longrightarrow> tx_inv s1"
  using await_canSend_rule[of tx_inv s s1] tx_inv_delay by blast

lemma tx_space_inv:
  assumes "tx_inv s"
  shows "tx_space s = tx_buffer_size s - (length (tx_buffer s) - tx_buffer_head s)"
proof -
  have "size_sub (length (tx_buffer s)) (tx_buffer_head s) = length (tx_buffer s) - tx_buffer_head s"
    using assms by (simp add: tx_inv_def size_sub_le)
  then show ?thesis by (simp add: tx_space_def Let_def)
qed

lemma tx_inv_insert:
  assumes "tx_inv s" "length bs \<le> tx_space s"
  shows "tx_inv (tx_insert bs s)"
proof -
  have "length bs \<le> tx_buffer_size s - (length (tx_buffer s) - tx_buffer_head s)"
    using assms(2) by (simp add: tx_space_inv[OF assms(1)])
  moreover have "tx_buffer_head s \<le> length (tx_buffer s)"
    "length (tx_buffer s) - tx_buffer_head s \<le> tx_buffer_size s"
    using assms(1) by (simp_all add: tx_inv_def)
  ultimately have "tx_buffer_head s \<le> length (tx_buffer s) + length bs \<and>
     length (tx_buffer s) + length bs - tx_buffer_head s \<le> tx_buffer_size s" by arith
  then show ?thesis by (simp add: tx_inv_def tx_insert_def)
qed

lemma tx_inv_write_loop:
  assumes "tx_inv s" "write_loop data written s = Some (n, s')"
  shows "tx_inv s'"
proof (rule write_loop_rule[of "\<lambda>w. tx_inv", OF _ _ _ assms])
  show "\<And>w s s1. tx_inv s \<Longrightarrow> await_canSend s = Some s1 \<Longrightarrow> tx_inv s1" by (rule tx_inv_await)
  show "\<And>w s. tx_inv s \<Longrightarrow> tx_inv (snd (sendBuffer s))" by (rule tx_inv_sendBuffer)
  show "\<And>w s k. tx_inv s \<Longrightarrow> w < length data \<Longrightarrow> 0 < k \<Longrightarrow> k \<le> tx_space s \<Longrightarrow>
          k \<le> length data - w \<Longrightarrow> tx_inv (tx_insert (take k (drop w data)) s)"
    by (rule tx_inv_insert) simp_all
qed

lemma tx_inv_write_data: "tx_inv s \<Longrightarrow> write_data data s = Some (n, s') \<Longrightarrow> tx_inv s'"
  by (auto simp: write_data_def dest: tx_inv_write_loop split: if_splits)

lemma tx_inv_flush: "tx_inv s \<Longrightarrow> flush m s = Some (b, s') \<Longrightarrow> tx_inv s'"
  by (auto simp: flush_def Let_def dest: tx_inv_await tx_inv_sendBuffer split: if_splits option.splits)

lemma tx_inv_members: "tx_inv (members c n rs evs)"
  by (simp add: members_def tx_inv_def)

lemma tx_inv_new: "tx_inv (new_SyncClient n alloc rs evs)" "tx_inv (new_SyncClient_on c n alloc rs evs)"
  by (simp_all add: new_SyncClient_def new_SyncClient_on_def ref_def members_def tx_inv_def
      attachCallbacks_def attachCallbacks_AfterConnected_def attachCallbacks_Disconnect_def handle_call_def
      split: option.splits prod.splits)

lemmas run_simps =
  write_data_def write_loop.simps write_finish_def await_canSend.simps delay_def deliver_def
  sendBuffer_def sendBuffer_loop.simps tx_space_def tx_insert_def size_sub_def
  connected_def canSend_def ac_canSend_def space_def ac_write_def handle_call_def
  onData_def onDisconnect_def Let_def members_def c_up_def c_down_def

lemma s_tx_write:
  "write_data [6, 7, 8, 9, 10, 11] s_tx =
     Some (6, s_tx\<lparr>client := Some c_up, tx_buffer := [1, 2, 3, 4, 5, 6, 7, 8, 9, 10, 11],
                   tx_buffer_head := 5, wire := [2, 3, 4, 5],
                   calls := [Write [2, 3, 4], Write [5, 6], Write [6, 7, 8, 9, 10, 11]],
                   replies := []\<rparr>)"
  by (simp add: run_simps s_tx_def)

lemma tx_inv_unsent: "tx_inv s \<Longrightarrow> length (unsent s) \<le> tx_buffer_size s"
  by (simp add: tx_inv_def length_unsent)

text \<open>
  C2. The invariant \<open>head \<le> size\<close> and \<open>size - head \<le> capacity\<close> holds for a new adapter
  (either constructor, whatever the allocator answers), it holds after \<open>onConnect\<close>,
  \<open>onDisconnect\<close> and \<open>release\<close> from any state, and every function that touches the
  adapter keeps it: the drain helper, the write function and \<open>flush\<close> whenever they
  return, each event delivered during a yield and so each yield, and the functions that
  leave the send buffer alone. Where it holds, the unsent bytes are at most the capacity.
\<close>

theorem tx_inv_preserved:
  "tx_inv (new_SyncClient txBufLen alloc rs evs) \<and>
   tx_inv (new_SyncClient_on c txBufLen alloc rs evs) \<and>
   tx_inv (onConnect c' s) \<and> tx_inv (onDisconnect s) \<and> tx_inv (release s) \<and>
   (tx_inv s \<longrightarrow>
      length (unsent s) \<le> tx_buffer_size s \<and>
      tx_inv (snd (sendBuffer s)) \<and>
      (case write_data data s of None \<Rightarrow> True | Some (n, s') \<Rightarrow> tx_inv s') \<and>
      (case flush maxWaitMs s of None \<Rightarrow> True | Some (b, s') \<Rightarrow> tx_inv s') \<and>
      tx_inv (deliver ev s) \<and> tx_inv (delay s) \<and>
      (case await_canSend s of None \<Rightarrow> True | Some s' \<Rightarrow> tx_inv s') \<and>
      tx_inv (onData bytes ok s) \<and> tx_inv (snd (snd (read len s))) \<and>
      tx_inv (snd (stop maxWaitMs s)) \<and> tx_inv (snd (ref alloc s)) \<and>
      tx_inv (snd (unref s)) \<and> tx_inv (destroy s))"
proof -
  have new: "tx_inv (new_SyncClient txBufLen alloc rs evs)"
    "tx_inv (new_SyncClient_on c txBufLen alloc rs evs)"
    by (rule tx_inv_new)+
  have "tx_inv s \<longrightarrow>
      length (unsent s) \<le> tx_buffer_size s \<and>
      tx_inv (snd (sendBuffer s)) \<and>
      (case write_data data s of None \<Rightarrow> True | Some (n, s') \<Rightarrow> tx_inv s') \<and>
      (case flush maxWaitMs s of None \<Rightarrow> True | Some (b, s') \<Rightarrow> tx_inv s') \<and>
      tx_inv (deliver ev s) \<and> tx_inv (delay s) \<and>
      (case await_canSend s of None \<Rightarrow> True | Some s' \<Rightarrow> tx_inv s') \<and>
      tx_inv (onData bytes ok s) \<and> tx_inv (snd (snd (read len s))) \<and>
      tx_inv (snd (stop maxWaitMs s)) \<and> tx_inv (snd (ref alloc s)) \<and>
      tx_inv (snd (unref s)) \<and> tx_inv (destroy s)"
  proof
    assume i: "tx_inv s"
    have w: "case write_data data s of None \<Rightarrow> True | Some (n, s') \<Rightarrow> tx_inv s'"
      using tx_inv_write_data[OF i] by (auto split: option.splits)
    have f: "case flush maxWaitMs s of None \<Rightarrow> True | Some (b, s') \<Rightarrow> tx_inv s'"
      using tx_inv_flush[OF i] by (auto split: option.splits)
    have a: "case await_canSend s of None \<Rightarrow> True | Some s' \<Rightarrow> tx_inv s'"
      using tx_inv_await[OF i] by (auto split: option.splits)
    have r: "tx_inv (snd (snd (read len s)))"
      using i by (simp add: read_def Let_def handle_call_def tx_inv_def)
    have st: "tx_inv (snd (stop maxWaitMs s))"
      using i by (simp add: stop_def ac_close_def handle_call_def Let_def tx_inv_def)
    have rf: "tx_inv (snd (ref alloc s))" "tx_inv (snd (unref s))"
      using i by (simp_all add: ref_def unref_def Let_def tx_inv_def split: option.splits)
    have d: "tx_inv (destroy s)"
      using i by (simp add: destroy_cases release_eq tx_inv_def split: option.splits)
    show "length (unsent s) \<le> tx_buffer_size s \<and>
      tx_inv (snd (sendBuffer s)) \<and>
      (case write_data data s of None \<Rightarrow> True | Some (n, s') \<Rightarrow> tx_inv s') \<and>
      (case flush maxWaitMs s of None \<Rightarrow> True | Some (b, s') \<Rightarrow> tx_inv s') \<and>
      tx_inv (deliver ev s) \<and> tx_inv (delay s) \<and>
      (case await_canSend s of None \<Rightarrow> True | Some s' \<Rightarrow> tx_inv s') \<and>
      tx_inv (onData bytes ok s) \<and> tx_inv (snd (snd (read len s))) \<and>
      tx_inv (snd (stop maxWaitMs s)) \<and> tx_inv (snd (ref alloc s)) \<and>
      tx_inv (snd (unref s)) \<and> tx_inv (destroy s)"
      using tx_inv_unsent[OF i] tx_inv_sendBuffer[OF i] w f tx_inv_deliver[OF i] tx_inv_delay[OF i]
        a tx_inv_onData[of bytes ok s] i r st rf d
      by blast
  qed
  then show ?thesis
    using new tx_inv_onConnect tx_inv_onDisconnect tx_inv_release by blast
qed

theorem tx_inv_preserved_witness:
  "tx_inv s_tx \<and> length (unsent s_tx) = 4 \<and> tx_buffer_size s_tx = 8 \<and>
   write_data [6, 7, 8, 9, 10, 11] s_tx =
     Some (6, s_tx\<lparr>client := Some c_up, tx_buffer := [1, 2, 3, 4, 5, 6, 7, 8, 9, 10, 11],
                   tx_buffer_head := 5, wire := [2, 3, 4, 5],
                   calls := [Write [2, 3, 4], Write [5, 6], Write [6, 7, 8, 9, 10, 11]],
                   replies := []\<rparr>) \<and>
   tx_inv (s_tx\<lparr>client := Some c_up, tx_buffer := [1, 2, 3, 4, 5, 6, 7, 8, 9, 10, 11],
                   tx_buffer_head := 5, wire := [2, 3, 4, 5],
                   calls := [Write [2, 3, 4], Write [5, 6], Write [6, 7, 8, 9, 10, 11]],
                   replies := []\<rparr>) \<and>
   tx_inv (snd (sendBuffer s_tx)) \<and> tx_inv (new_SyncClient 8 True [] [])"
proof -
  have i: "tx_inv s_tx" by (simp add: tx_inv_def s_tx_def members_def)
  have u: "length (unsent s_tx) = 4" "tx_buffer_size s_tx = 8"
    by (simp_all add: unsent_def s_tx_def members_def)
  show ?thesis
    using tx_inv_preserved[of 8 True "[]" "[]" None c_up s_tx "[6, 7, 8, 9, 10, 11]" 0 Acked "[]" True 0]
      i u s_tx_write
    by simp
qed

subsection \<open>What the write function queues\<close>

definition queued :: "byte list \<Rightarrow> SyncClient \<Rightarrow> bool" where
  \<comment> \<open>on a bound adapter, the wire followed by the unsent bytes is \<open>bs\<close>\<close>
  "queued bs s = (tx_inv s \<and> (client s \<noteq> None \<longrightarrow> wire s @ unsent s = bs))"

lemma sendBuffer_unbound: "client s = None \<Longrightarrow> sendBuffer s = (0, s)"
  by (simp add: sendBuffer_def)

lemma queued_sendBuffer:
  assumes "queued bs s"
  shows "queued bs (snd (sendBuffer s))"
proof (cases "client s")
  case None
  then show ?thesis using assms by (simp add: sendBuffer_unbound)
next
  case (Some c)
  obtain n s' where r: "sendBuffer s = (n, s')" by (cases "sendBuffer s")
  have p: "drain_post s n s'" using sendBuffer_post[of s] r by simp
  then have "wire s' @ unsent s' = wire s @ unsent s"
    by (simp add: drain_post_def)
  moreover have "tx_inv s'" using tx_inv_sendBuffer[of s] assms r by (simp add: queued_def)
  ultimately show ?thesis using assms Some r by (simp add: queued_def)
qed

lemma queued_deliver:
  assumes "queued bs s"
  shows "queued bs (deliver ev s)"
proof (cases "client s")
  case None
  then show ?thesis using assms by (simp add: deliver_def)
next
  case (Some c)
  have i: "tx_inv (deliver ev s)" using assms tx_inv_deliver by (simp add: queued_def)
  show ?thesis
  proof (cases ev)
    case (Link c')
    then show ?thesis using assms Some i by (simp add: deliver_def queued_def unsent_def)
  next
    case Acked
    then show ?thesis using queued_sendBuffer[OF assms] Some by (simp add: deliver_def)
  next
    case (Data b ok)
    then show ?thesis using assms Some i
      by (simp add: deliver_def queued_def unsent_def onData_def handle_call_def Let_def)
  next
    case Timeout
    then show ?thesis using assms Some i by (simp add: deliver_def queued_def unsent_def handle_call_def)
  next
    case Disconnect
    then show ?thesis using Some i by (simp add: deliver_def queued_def onDisconnect_def)
  qed
qed

lemma queued_delay:
  assumes "queued bs s"
  shows "queued bs (delay s)"
proof (rule delay_rule[of "queued bs"])
  show "\<And>ev s. queued bs s \<Longrightarrow> queued bs (deliver ev s)" by (rule queued_deliver)
  show "\<And>s p. queued bs s \<Longrightarrow> queued bs (s\<lparr>pending := p\<rparr>)"
    by (simp add: queued_def tx_inv_def unsent_def)
  show "queued bs s" by (rule assms)
qed

lemma queued_await: "queued bs s \<Longrightarrow> await_canSend s = Some s1 \<Longrightarrow> queued bs s1"
  using await_canSend_rule[of "queued bs" s s1] queued_delay by blast

lemma queued_insert:
  assumes "queued bs s" "length xs \<le> tx_space s"
  shows "queued (bs @ xs) (tx_insert xs s)"
proof -
  have i: "tx_inv s" using assms(1) by (simp add: queued_def)
  then have "tx_buffer_head s \<le> length (tx_buffer s)" by (simp add: tx_inv_def)
  then have "unsent (tx_insert xs s) = unsent s @ xs"
    by (simp add: unsent_def tx_insert_def)
  moreover have "wire (tx_insert xs s) = wire s" "client (tx_insert xs s) = client s"
    by (simp_all add: tx_insert_def)
  ultimately show ?thesis
    using assms(1) tx_inv_insert[OF i assms(2)] by (simp add: queued_def)
qed

lemma write_loop_queued:
  assumes "queued (bs @ take written data) s" "written \<le> length data"
    "write_loop data written s = Some (n, s')"
  shows "queued (bs @ take n data) s' \<and> written \<le> n \<and> n \<le> length data"
proof -
  define J where "J = (\<lambda>w t. queued (bs @ take w data) t \<and> written \<le> w \<and> w \<le> length data)"
  have "J n s'"
  proof (rule write_loop_rule[of J data written s n s'])
    show "\<And>w s s1. J w s \<Longrightarrow> await_canSend s = Some s1 \<Longrightarrow> J w s1"
      unfolding J_def using queued_await by blast
    show "\<And>w s. J w s \<Longrightarrow> J w (snd (sendBuffer s))"
      unfolding J_def using queued_sendBuffer by blast
    show "J (w + k) (tx_insert (take k (drop w data)) s)"
      if "J w s" "w < length data" "0 < k" "k \<le> tx_space s" "k \<le> length data - w" for w s k
    proof -
      have "length (take k (drop w data)) \<le> tx_space s" using that(4) by simp
      from queued_insert[OF _ this, of "bs @ take w data"] that(1)
      have "queued ((bs @ take w data) @ take k (drop w data)) (tx_insert (take k (drop w data)) s)"
        by (simp add: J_def)
      moreover have "take w data @ take k (drop w data) = take (w + k) data"
        by (simp add: take_add)
      ultimately show ?thesis using that by (simp add: J_def)
    qed
    show "J written s" using assms(1,2) by (simp add: J_def)
    show "write_loop data written s = Some (n, s')" by (rule assms(3))
  qed
  then show ?thesis by (simp add: J_def)
qed

lemma write_data_queued:
  assumes "tx_inv s" "write_data data s = Some (n, s')"
  shows "n \<le> length data \<and> tx_inv s' \<and>
         (client s' \<noteq> None \<longrightarrow> wire s' @ unsent s' = wire s @ unsent s @ take n data)"
proof (cases "client s = None \<or> \<not> connected s")
  case True
  then show ?thesis using assms by (auto simp: write_data_def)
next
  case False
  then have r: "write_loop data 0 s = Some (n, s')" using assms(2) by (auto simp: write_data_def)
  have "queued ((wire s @ unsent s) @ take 0 data) s" using assms(1) by (simp add: queued_def)
  from write_loop_queued[OF this _ r] show ?thesis by (simp add: queued_def)
qed

subsection \<open>When the write function returns\<close>

definition ends :: "SyncClient \<Rightarrow> bool" where
  \<comment> \<open>the adapter has no handle, or a coming yield brings the disconnect callback\<close>
  "ends s = (client s = None \<or> (\<exists>evs \<in> set (pending s). Disconnect \<in> set evs))"

lemma connected_bound: "connected s \<Longrightarrow> client s \<noteq> None"
  by (auto simp: connected_def split: option.splits)

lemma deliver_unbound: "client s = None \<Longrightarrow> deliver ev s = s"
  by (simp add: deliver_def)

lemma fold_deliver_unbound: "client s = None \<Longrightarrow> fold deliver evs s = s"
  by (induction evs) (simp_all add: deliver_unbound)

lemma deliver_Disconnect: "client (deliver Disconnect s) = None"
  by (simp add: deliver_def onDisconnect_def split: option.splits)

lemma fold_deliver_Disconnect:
  "Disconnect \<in> set evs \<Longrightarrow> client (fold deliver evs s) = None"
proof (induction evs arbitrary: s)
  case Nil
  then show ?case by simp
next
  case (Cons e es)
  show ?case
  proof (cases "e = Disconnect")
    case True
    then have "client (deliver e s) = None" by (simp add: deliver_Disconnect)
    then show ?thesis by (simp add: fold_deliver_unbound)
  next
    case False
    then have "Disconnect \<in> set es" using Cons.prems by auto
    then show ?thesis using Cons.IH by simp
  qed
qed

lemma ends_delay:
  assumes "ends s"
  shows "ends (delay s)"
proof (cases "client s")
  case None
  then have "client (delay s) = None"
    by (simp add: delay_def fold_deliver_unbound split: list.splits)
  then show ?thesis by (simp add: ends_def)
next
  case (Some c)
  then obtain evs where e: "evs \<in> set (pending s)" "Disconnect \<in> set evs"
    using assms by (auto simp: ends_def)
  then obtain b rest where p: "pending s = b # rest" by (cases "pending s") auto
  have d: "delay s = fold deliver b (s\<lparr>pending := rest\<rparr>)" by (simp add: delay_def p)
  show ?thesis
  proof (cases "Disconnect \<in> set b")
    case True
    then show ?thesis using fold_deliver_Disconnect d by (simp add: ends_def)
  next
    case False
    then have "evs \<in> set rest" using e p by auto
    moreover have "pending (delay s) = rest" by (simp add: d)
    ultimately show ?thesis using e(2) by (auto simp: ends_def)
  qed
qed

lemma ends_await:
  "ends s \<Longrightarrow> \<exists>s1. await_canSend s = Some s1 \<and> ends s1"
proof (induction s rule: await_canSend.induct)
  case (1 s)
  show ?case
  proof (cases "connected s \<and> \<not> canSend s")
    case False
    then show ?thesis using "1.prems" by (simp add: await_canSend_done)
  next
    case True
    then have "client s \<noteq> None" by (simp add: connected_bound)
    then have p: "pending s \<noteq> []" using "1.prems" by (auto simp: ends_def)
    from "1.IH"[OF True p ends_delay[OF "1.prems"]]
    show ?thesis using True p by (simp add: await_canSend_wait)
  qed
qed

lemma ends_sendBuffer:
  assumes "ends s"
  shows "ends (snd (sendBuffer s))"
proof (cases "client s")
  case None
  then show ?thesis using assms by (simp add: sendBuffer_unbound)
next
  case (Some c)
  have "pending (snd (sendBuffer s)) = pending s"
    using sendBuffer_same_rest[of s "fst (sendBuffer s)" "snd (sendBuffer s)"]
    by (simp add: same_rest_def)
  then show ?thesis using assms Some by (simp add: ends_def)
qed

lemma ends_insert: "ends s \<Longrightarrow> ends (tx_insert bs s)"
  by (simp add: ends_def tx_insert_def)

lemma write_loop_returns:
  "ends s \<Longrightarrow> \<exists>r. write_loop data written s = Some r"
proof (induction "length data - written" arbitrary: written s rule: less_induct)
  case less
  note e = less.prems
  show ?case
  proof (cases "written < length data")
    case False
    then show ?thesis by (subst write_loop.simps) simp
  next
    case lt: True
    have again: "\<exists>r. write_loop data (written + min (tx_space t) (length data - written))
                     (tx_insert bs t) = Some r"
      if "ends t" "tx_space t \<noteq> 0" for t bs
    proof -
      have "length data - (written + min (tx_space t) (length data - written)) < length data - written"
        using that(2) lt by arith
      then show ?thesis using ends_insert[OF that(1)] by (rule less.hyps)
    qed
    show ?thesis
    proof (cases "tx_space s = 0")
      case False
      then show ?thesis using lt again[OF e False]
        by (subst write_loop.simps) (simp add: Let_def)
    next
      case full: True
      obtain s1 where a: "await_canSend s = Some s1" and e1: "ends s1"
        using ends_await[OF e] by blast
      show ?thesis
      proof (cases "connected s1")
        case False
        then show ?thesis using lt full a by (subst write_loop.simps) simp
      next
        case c: True
        have e2: "ends (snd (sendBuffer s1))" using ends_sendBuffer[OF e1] .
        show ?thesis
        proof (cases "tx_space (snd (sendBuffer s1)) = 0")
          case True
          then show ?thesis using lt full a c by (subst write_loop.simps) (simp add: Let_def)
        next
          case False
          then show ?thesis using lt full a c again[OF e2 False]
            by (subst write_loop.simps) (simp add: Let_def)
        qed
      qed
    qed
  qed
qed

lemma write_data_returns: "ends s \<Longrightarrow> \<exists>r. write_data data s = Some r"
  using write_loop_returns[of s data 0] by (simp add: write_data_def)

lemma write_data_room:
  assumes "connected s" "length data \<le> tx_space s"
  shows "\<exists>s'. write_data data s = Some (length data, s')"
proof -
  have b: "client s \<noteq> None" using assms(1) by (rule connected_bound)
  have fin: "\<And>t. \<exists>s'. write_loop data (length data) t = Some (length data, s')"
    by (subst write_loop.simps) (simp add: write_finish_def)
  show ?thesis
  proof (cases "data = []")
    case True
    then show ?thesis using fin[of s] b assms(1) by (auto simp: write_data_def)
  next
    case False
    then have "0 < length data" by simp
    then have "tx_space s \<noteq> 0" using assms(2) by linarith
    moreover have "min (tx_space s) (length data) = length data" using assms(2) by simp
    ultimately have "tx_space s \<noteq> 0" "min (tx_space s) (length data) = length data" by blast+
    then have "write_loop data 0 s = write_loop data (length data) (tx_insert (take (length data) (drop 0 data)) s)"
      using False by (subst write_loop.simps) (simp add: Let_def)
    then show ?thesis using fin b assms(1) by (auto simp: write_data_def)
  qed
qed

subsection \<open>The rounds of the write function\<close>

lemma write_loop_done:
  "\<not> written < length data \<Longrightarrow> write_loop data written s = Some (write_finish written s)"
  by (subst write_loop.simps) (simp only: if_False)

lemma write_loop_copy:
  assumes "written < length data" "tx_space s \<noteq> 0"
  shows "write_loop data written s =
     write_loop data (written + min (tx_space s) (length data - written))
       (tx_insert (take (min (tx_space s) (length data - written)) (drop written data)) s)"
  using assms by (subst write_loop.simps) (simp add: Let_def)

lemma write_loop_full:
  assumes "written < length data" "tx_space s = 0"
  shows "write_loop data written s =
     (case await_canSend s of
        None \<Rightarrow> None
      | Some s1 \<Rightarrow>
          if \<not> connected s1 then Some (written, s1)
          else if tx_space (snd (sendBuffer s1)) = 0
          then Some (write_finish written (snd (sendBuffer s1)))
          else write_loop data (written + min (tx_space (snd (sendBuffer s1))) (length data - written))
                 (tx_insert (take (min (tx_space (snd (sendBuffer s1))) (length data - written))
                               (drop written data)) (snd (sendBuffer s1))))"
  using assms by (subst write_loop.simps) (simp add: Let_def split: option.splits)

definition shifted :: "nat \<Rightarrow> (nat \<times> SyncClient) option \<Rightarrow> (nat \<times> SyncClient) option" where
  \<comment> \<open>the result of a call on the rest of the data, counted from \<open>w\<close> bytes\<close>
  "shifted w r = (case r of None \<Rightarrow> None | Some (n, t) \<Rightarrow> Some (w + n, t))"

lemma shifted_simps [simp]:
  "shifted w None = None" "shifted w (Some (n, t)) = Some (w + n, t)"
  by (simp_all add: shifted_def)

lemma shifted_finish: "shifted w (Some (write_finish v s)) = Some (write_finish (w + v) s)"
  by (simp add: write_finish_def)

lemma write_loop_shift:
  assumes "w \<le> length data"
  shows "write_loop data (w + v) s = shifted w (write_loop (drop w data) v s)"
proof (induction "length data - (w + v)" arbitrary: v s rule: less_induct)
  case less
  let ?rest = "drop w data"
  have len: "length ?rest = length data - w" by simp
  show ?case
  proof (cases "w + v < length data")
    case False
    then have "\<not> v < length ?rest" using assms by simp
    then show ?thesis using False by (simp add: write_loop_done shifted_finish)
  next
    case lt: True
    then have lt': "v < length ?rest" using assms by simp
    have rem: "length ?rest - v = length data - (w + v)" by simp
    have dd: "drop v ?rest = drop (w + v) data" by (simp add: add.commute)
    have again: "write_loop data (w + v + k) t = shifted w (write_loop ?rest (v + k) t)"
      if "0 < k" for k t
    proof -
      have "length data - (w + (v + k)) < length data - (w + v)" using that lt by arith
      from less.hyps[OF this] show ?thesis by (simp add: add.assoc)
    qed
    show ?thesis
    proof (cases "tx_space s = 0")
      case False
      have k: "0 < min (tx_space s) (length data - (w + v))" using False lt by simp
      show ?thesis
        unfolding write_loop_copy[OF lt False] write_loop_copy[OF lt' False] rem dd
        by (rule again[OF k])
    next
      case full: True
      show ?thesis
      proof (cases "await_canSend s")
        case None
        then show ?thesis by (simp add: write_loop_full[OF lt full] write_loop_full[OF lt' full])
      next
        case (Some s1)
        show ?thesis
        proof (cases "connected s1")
          case False
          then show ?thesis
            using Some by (simp add: write_loop_full[OF lt full] write_loop_full[OF lt' full])
        next
          case c: True
          let ?s2 = "snd (sendBuffer s1)"
          show ?thesis
          proof (cases "tx_space ?s2 = 0")
            case True
            then show ?thesis
              using Some c
              by (simp add: write_loop_full[OF lt full] write_loop_full[OF lt' full] shifted_finish)
          next
            case False
            have k: "0 < min (tx_space ?s2) (length data - (w + v))" using False lt by simp
            show ?thesis
              unfolding write_loop_full[OF lt full] write_loop_full[OF lt' full] rem dd
              using Some c False again[OF k] by simp
          qed
        qed
      qed
    qed
  qed
qed

lemma tx_insert_Nil [simp]: "tx_insert [] s = s"
  by (simp add: tx_insert_def)

lemma tx_insert_frame [simp]:
  "client (tx_insert bs s) = client s" "connected (tx_insert bs s) = connected s"
  "canSend (tx_insert bs s) = canSend s" "pending (tx_insert bs s) = pending s"
  by (simp_all add: tx_insert_def connected_def canSend_def)

lemma tx_space_insert:
  assumes "tx_inv s" "length bs \<le> tx_space s"
  shows "tx_space (tx_insert bs s) = tx_space s - length bs"
proof -
  have i: "tx_inv (tx_insert bs s)" using assms by (rule tx_inv_insert)
  have "tx_buffer_head s \<le> length (tx_buffer s)" using assms(1) by (simp add: tx_inv_def)
  then show ?thesis
    unfolding tx_space_inv[OF i] tx_space_inv[OF assms(1)]
    by (simp add: tx_insert_def)
qed

lemma write_loop_resume:
  assumes "tx_inv u" "tx_space u \<noteq> 0" "w < length data"
  shows "write_loop data w u =
     (if connected u then shifted w (write_data (drop w data) u)
      else (let k2 = min (tx_space u) (length data - w)
            in Some (w + k2, tx_insert (take k2 (drop w data)) u)))"
proof (cases "connected u")
  case True
  then have "write_data (drop w data) u = write_loop (drop w data) 0 u"
    by (auto simp: write_data_def dest: connected_bound)
  moreover have "write_loop data (w + 0) u = shifted w (write_loop (drop w data) 0 u)"
    using assms(3) by (intro write_loop_shift) simp
  ultimately show ?thesis using True by simp
next
  case False
  define k2 where "k2 = min (tx_space u) (length data - w)"
  define t where "t = tx_insert (take k2 (drop w data)) u"
  have l: "length (take k2 (drop w data)) = k2" using assms(3) by (simp add: k2_def)
  have nc: "\<not> connected t" using False by (simp add: t_def)
  have step: "write_loop data w u = write_loop data (w + k2) t"
    unfolding k2_def t_def by (rule write_loop_copy[OF assms(3,2)])
  have "write_loop data (w + k2) t = Some (w + k2, t)"
  proof (cases "w + k2 < length data")
    case False
    then show ?thesis using nc by (simp add: write_loop_done write_finish_def)
  next
    case lt: True
    then have "k2 = tx_space u" unfolding k2_def by arith
    then have "tx_space t = 0"
      using tx_space_insert[OF assms(1), of "take k2 (drop w data)"] l by (simp add: t_def)
    moreover have "await_canSend t = Some t" using nc by (simp add: await_canSend_done)
    ultimately show ?thesis using nc lt by (simp add: write_loop_full)
  qed
  then show ?thesis using False step by (simp add: k2_def t_def Let_def)
qed

lemma write_loop_wait:
  assumes "tx_inv u" "tx_space u = 0" "w < length data"
  shows "write_loop data w u =
     (case await_canSend u of
        None \<Rightarrow> None
      | Some s1 \<Rightarrow>
          if \<not> connected s1 then Some (w, s1)
          else (let s2 = snd (sendBuffer s1)
                in if tx_space s2 = 0 then Some (write_finish w s2)
                   else if connected s2 then shifted w (write_data (drop w data) s2)
                   else (let k2 = min (tx_space s2) (length data - w)
                         in Some (w + k2, tx_insert (take k2 (drop w data)) s2))))"
proof (cases "await_canSend u")
  case None
  then show ?thesis by (simp add: write_loop_full[OF assms(3,2)])
next
  case (Some s1)
  let ?s2 = "snd (sendBuffer s1)"
  have i2: "tx_inv ?s2" using tx_inv_sendBuffer[OF tx_inv_await[OF assms(1) Some]] .
  show ?thesis
  proof (cases "connected s1 \<and> tx_space ?s2 \<noteq> 0")
    case False
    then show ?thesis using Some by (auto simp: write_loop_full[OF assms(3,2)] Let_def)
  next
    case True
    then have "write_loop data w u = write_loop data (w + min (tx_space ?s2) (length data - w))
                 (tx_insert (take (min (tx_space ?s2) (length data - w)) (drop w data)) ?s2)"
      using Some by (simp add: write_loop_full[OF assms(3,2)])
    also have "\<dots> = write_loop data w ?s2"
      using True by (simp add: write_loop_copy[OF assms(3)])
    finally show ?thesis
      using True Some write_loop_resume[OF i2 _ assms(3)] by (simp add: Let_def)
  qed
qed

lemma write_data_round:
  assumes "tx_inv s" "connected s"
  shows "write_data data s =
     (let k = min (tx_space s) (length data); s0 = tx_insert (take k data) s
      in if k = length data then Some (write_finish k s0)
         else
           (case await_canSend s0 of
              None \<Rightarrow> None
            | Some s1 \<Rightarrow>
                if \<not> connected s1 then Some (k, s1)
                else (let s2 = snd (sendBuffer s1)
                      in if tx_space s2 = 0 then Some (write_finish k s2)
                         else if connected s2 then shifted k (write_data (drop k data) s2)
                         else (let k2 = min (tx_space s2) (length data - k)
                               in Some (k + k2, tx_insert (take k2 (drop k data)) s2)))))"
proof -
  define k where "k = min (tx_space s) (length data)"
  define s0 where "s0 = tx_insert (take k data) s"
  have l: "length (take k data) = k" by (simp add: k_def)
  have i0: "tx_inv s0" unfolding s0_def by (rule tx_inv_insert[OF assms(1)]) (simp add: k_def)
  have w: "write_data data s = write_loop data 0 s"
    using assms(2) by (auto simp: write_data_def dest: connected_bound)
  have first: "write_loop data 0 s = write_loop data k s0"
  proof (cases "k = 0")
    case True
    then show ?thesis by (simp add: s0_def)
  next
    case False
    then have "0 < length data" "tx_space s \<noteq> 0" by (auto simp: k_def)
    from write_loop_copy[OF this] show ?thesis by (simp add: k_def s0_def)
  qed
  have goal: "write_data data s =
     (if k = length data then Some (write_finish k s0)
      else
        (case await_canSend s0 of
           None \<Rightarrow> None
         | Some s1 \<Rightarrow>
             if \<not> connected s1 then Some (k, s1)
             else (let s2 = snd (sendBuffer s1)
                   in if tx_space s2 = 0 then Some (write_finish k s2)
                      else if connected s2 then shifted k (write_data (drop k data) s2)
                      else (let k2 = min (tx_space s2) (length data - k)
                            in Some (k + k2, tx_insert (take k2 (drop k data)) s2)))))"
  proof (cases "k = length data")
    case True
    then have "write_loop data k s0 = Some (write_finish k s0)" by (simp add: write_loop_done)
    then show ?thesis using w first True by simp
  next
    case False
    then have lt: "k < length data" "k = tx_space s" by (auto simp: k_def)
    have full: "tx_space s0 = 0"
      using tx_space_insert[OF assms(1), of "take k data"] l lt(2) by (simp add: s0_def)
    show ?thesis
      unfolding w first write_loop_wait[OF i0 full lt(1)] using False by simp
  qed
  show ?thesis
    using goal by (simp only: Let_def k_def s0_def)
qed

subsection \<open>The wait for a send window\<close>

definition waiting :: "SyncClient \<Rightarrow> bool" where
  \<comment> \<open>the condition of the wait loop\<close>
  "waiting s = (connected s \<and> \<not> canSend s)"

lemma pending_delay: "pending (delay s) = tl (pending s)"
  by (cases "pending s") (simp_all add: delay_def)

lemma pending_delays: "pending ((delay ^^ i) s) = drop i (pending s)"
proof (induction i arbitrary: s)
  case 0
  then show ?case by simp
next
  case (Suc i)
  have "(delay ^^ Suc i) s = (delay ^^ i) (delay s)" by (simp add: funpow_swap1)
  then show ?case using Suc[of "delay s"] by (simp add: pending_delay drop_Suc)
qed

lemma await_canSend_None_iff:
  "(await_canSend s = None) = (\<forall>i \<le> length (pending s). waiting ((delay ^^ i) s))"
proof (induction s rule: await_canSend.induct)
  case (1 s)
  show ?case
  proof (cases "connected s \<and> \<not> canSend s")
    case False
    then have "\<not> waiting ((delay ^^ 0) s)" by (simp add: waiting_def)
    then have "\<not> (\<forall>i \<le> length (pending s). waiting ((delay ^^ i) s))" by blast
    then show ?thesis using False by (simp add: await_canSend_done)
  next
    case True
    then have w: "waiting s" by (simp add: waiting_def)
    show ?thesis
    proof (cases "pending s = []")
      case e: True
      then show ?thesis using True w by (simp add: await_canSend_wait)
    next
      case ne: False
      have l: "length (pending (delay s)) = length (pending s) - 1"
        by (simp add: pending_delay)
      have sw: "\<And>j. (delay ^^ j) (delay s) = (delay ^^ Suc j) s" by (simp add: funpow_swap1)
      have eq: "(\<forall>i \<le> length (pending s). waiting ((delay ^^ i) s)) =
            (\<forall>j \<le> length (pending s) - 1. waiting ((delay ^^ Suc j) s))"
      proof
        assume a: "\<forall>i \<le> length (pending s). waiting ((delay ^^ i) s)"
        show "\<forall>j \<le> length (pending s) - 1. waiting ((delay ^^ Suc j) s)"
        proof (intro allI impI)
          fix j assume "j \<le> length (pending s) - 1"
          then have "Suc j \<le> length (pending s)" using ne by (cases "pending s") auto
          then show "waiting ((delay ^^ Suc j) s)" using a by blast
        qed
      next
        assume a: "\<forall>j \<le> length (pending s) - 1. waiting ((delay ^^ Suc j) s)"
        show "\<forall>i \<le> length (pending s). waiting ((delay ^^ i) s)"
        proof (intro allI impI)
          fix i assume i: "i \<le> length (pending s)"
          show "waiting ((delay ^^ i) s)"
          proof (cases i)
            case 0
            then show ?thesis using w by simp
          next
            case (Suc j)
            then have "j \<le> length (pending s) - 1" using i by simp
            then show ?thesis using a Suc by blast
          qed
        qed
      qed
      have "await_canSend s = await_canSend (delay s)"
        using True ne by (simp add: await_canSend_wait)
      then have "(await_canSend s = None) =
            (\<forall>i \<le> length (pending (delay s)). waiting ((delay ^^ i) (delay s)))"
        using "1.IH"[OF True ne] by (simp only:)
      also have "\<dots> = (\<forall>j \<le> length (pending s) - 1. waiting ((delay ^^ Suc j) s))"
        unfolding l sw ..
      also have "\<dots> = (\<forall>i \<le> length (pending s). waiting ((delay ^^ i) s))"
        by (rule eq[symmetric])
      finally show ?thesis .
    qed
  qed
qed

lemma await_canSend_Some:
  "await_canSend s = Some s1 \<Longrightarrow>
     \<exists>i \<le> length (pending s). s1 = (delay ^^ i) s \<and> \<not> waiting s1 \<and> (\<forall>j < i. waiting ((delay ^^ j) s))"
proof (induction s rule: await_canSend.induct)
  case (1 s)
  show ?case
  proof (cases "connected s \<and> \<not> canSend s")
    case False
    then have "s1 = s" using "1.prems" by (simp add: await_canSend_done)
    then have "s1 = (delay ^^ 0) s \<and> \<not> waiting s1 \<and> (\<forall>j < 0. waiting ((delay ^^ j) s))"
      using False by (simp add: waiting_def)
    then show ?thesis by blast
  next
    case True
    then have w: "waiting s" by (simp add: waiting_def)
    have ne: "pending s \<noteq> []" and a: "await_canSend (delay s) = Some s1"
      using "1.prems" True by (auto simp: await_canSend_wait split: if_splits)
    from "1.IH"[OF True ne a] obtain i where i: "i \<le> length (pending (delay s))"
      "s1 = (delay ^^ i) (delay s)" "\<not> waiting s1" "\<forall>j < i. waiting ((delay ^^ j) (delay s))"
      by blast
    have sw: "\<And>j. (delay ^^ j) (delay s) = (delay ^^ Suc j) s" by (simp add: funpow_swap1)
    have "Suc i \<le> length (pending s)" using i(1) ne by (cases "pending s") (auto simp: pending_delay)
    moreover have "s1 = (delay ^^ Suc i) s" using i(2) sw by simp
    moreover have "\<forall>j < Suc i. waiting ((delay ^^ j) s)"
    proof (intro allI impI)
      fix j assume j: "j < Suc i"
      show "waiting ((delay ^^ j) s)"
      proof (cases j)
        case 0
        then show ?thesis using w by simp
      next
        case (Suc m)
        then have "m < i" using j by simp
        then have "waiting ((delay ^^ m) (delay s))" using i(4) by blast
        then show ?thesis using Suc sw by simp
      qed
    qed
    ultimately show ?thesis using i(3) by blast
  qed
qed

lemma await_canSend_None_stuck:
  assumes "await_canSend s = None"
  shows "connected ((delay ^^ length (pending s)) s) \<and> \<not> canSend ((delay ^^ length (pending s)) s) \<and>
         pending ((delay ^^ length (pending s)) s) = []"
proof -
  have "\<forall>i \<le> length (pending s). waiting ((delay ^^ i) s)"
    using assms by (simp only: await_canSend_None_iff)
  then have "waiting ((delay ^^ length (pending s)) s)" by blast
  then show ?thesis by (simp add: waiting_def pending_delays)
qed

lemma write_loop_returns_rule:
  assumes aw: "\<And>u u'. P u \<Longrightarrow> await_canSend u = Some u' \<Longrightarrow> P u'"
    and sb: "\<And>u. P u \<Longrightarrow> P (snd (sendBuffer u))"
    and ins: "\<And>u bs. P u \<Longrightarrow> length bs \<le> tx_space u \<Longrightarrow> P (tx_insert bs u)"
    and wake: "\<And>u. P u \<Longrightarrow> tx_space u = 0 \<Longrightarrow> await_canSend u \<noteq> None"
    and "P s"
  shows "\<exists>r. write_loop data written s = Some r"
  using assms(5)
proof (induction "length data - written" arbitrary: written s rule: less_induct)
  case less
  note p = less.prems
  show ?case
  proof (cases "written < length data")
    case False
    then show ?thesis by (simp add: write_loop_done)
  next
    case lt: True
    have again: "\<exists>r. write_loop data (written + min (tx_space t) (length data - written))
                     (tx_insert (take (min (tx_space t) (length data - written)) bs) t) = Some r"
      if "P t" "tx_space t \<noteq> 0" for t bs
    proof -
      have m: "length data - (written + min (tx_space t) (length data - written)) < length data - written"
        using that(2) lt by arith
      have l: "length (take (min (tx_space t) (length data - written)) bs) \<le> tx_space t"
        by simp
      show ?thesis by (rule less.hyps[OF m ins[OF that(1) l]])
    qed
    show ?thesis
    proof (cases "tx_space s = 0")
      case False
      then show ?thesis using again[OF p False] by (simp add: write_loop_copy[OF lt False])
    next
      case full: True
      obtain s1 where a: "await_canSend s = Some s1" using wake[OF p full] by auto
      have p2: "P (snd (sendBuffer s1))" using sb[OF aw[OF p a]] .
      show ?thesis
      proof (cases "\<not> connected s1 \<or> tx_space (snd (sendBuffer s1)) = 0")
        case True
        then show ?thesis using a by (auto simp: write_loop_full[OF lt full])
      next
        case False
        then have "tx_space (snd (sendBuffer s1)) \<noteq> 0" by simp
        from again[OF p2 this] show ?thesis using a False by (simp add: write_loop_full[OF lt full])
      qed
    qed
  qed
qed

lemma write_data_returns_rule:
  assumes "P s" "\<And>u u'. P u \<Longrightarrow> await_canSend u = Some u' \<Longrightarrow> P u'"
    "\<And>u. P u \<Longrightarrow> P (snd (sendBuffer u))"
    "\<And>u bs. P u \<Longrightarrow> length bs \<le> tx_space u \<Longrightarrow> P (tx_insert bs u)"
    "\<And>u. P u \<Longrightarrow> tx_space u = 0 \<Longrightarrow> await_canSend u \<noteq> None"
  shows "\<exists>r. write_data data s = Some r"
proof -
  have "\<exists>r. write_loop data 0 s = Some r"
  proof (rule write_loop_returns_rule[where P = P])
    show "\<And>u u'. P u \<Longrightarrow> await_canSend u = Some u' \<Longrightarrow> P u'" by (rule assms(2))
    show "\<And>u. P u \<Longrightarrow> P (snd (sendBuffer u))" by (rule assms(3))
    show "\<And>u bs. P u \<Longrightarrow> length bs \<le> tx_space u \<Longrightarrow> P (tx_insert bs u)" by (rule assms(4))
    show "\<And>u. P u \<Longrightarrow> tx_space u = 0 \<Longrightarrow> await_canSend u \<noteq> None" by (rule assms(5))
    show "P s" by (rule assms(1))
  qed
  then show ?thesis by (cases "client s = None \<or> \<not> connected s") (simp_all add: write_data_def)
qed

subsection \<open>The write function\<close>

definition s_full :: SyncClient where
  \<comment> \<open>a full send buffer of capacity two on a busy handle; the first yield brings a byte,
      the second the disconnect callback\<close>
  "s_full = (members (Some (c_up\<lparr>ac_busy := True\<rparr>)) 2 [] [[Data [9] True], [Disconnect]])
     \<lparr>tx_buffer := [1, 2]\<rparr>"

definition s_stuck :: SyncClient where
  \<comment> \<open>the same adapter when nothing will ever happen: connected, full, no send window\<close>
  "s_stuck = s_full\<lparr>pending := []\<rparr>"

definition s_refused :: SyncClient where
  \<comment> \<open>an empty send buffer of capacity two on a handle whose transport takes nothing\<close>
  "s_refused = members (Some c_up) 2 [] []"

lemma s_full_write:
  "write_data [5, 6, 7] s_full =
     Some (0, s_full\<lparr>client := None, tx_buffer := [], rx_buffer := [9], calls := [AckLater],
                    pending := []\<rparr>)"
  by (simp add: run_simps s_full_def)

lemma s_refused_write:
  "write_data [5, 6, 7] s_refused =
     Some (2, s_refused\<lparr>tx_buffer := [5, 6], calls := [Write [5, 6], Write [5, 6]]\<rparr>)"
  by (simp add: run_simps s_refused_def)

lemma s_stuck_write: "write_data [5, 6, 7] s_stuck = None"
  by (simp add: run_simps s_stuck_def s_full_def)

definition s_mid :: SyncClient where
  \<comment> \<open>an empty send buffer of capacity two on a busy handle; the first yield brings the
      disconnect callback\<close>
  "s_mid = members (Some (c_up\<lparr>ac_busy := True\<rparr>)) 2 [] [[Disconnect]]"

definition s_open :: SyncClient where
  \<comment> \<open>a full send buffer of capacity two on a busy handle; the first yield opens the
      send window, and the transport then takes two bytes\<close>
  "s_open = (members (Some (c_up\<lparr>ac_busy := True\<rparr>)) 2 [(2, c_up)] [[Link c_up]])
     \<lparr>tx_buffer := [1, 2]\<rparr>"

lemma s_mid_write:
  "write_data [5, 6, 7] s_mid = Some (2, s_mid\<lparr>client := None, pending := []\<rparr>)"
  by (simp add: run_simps s_mid_def)

lemma s_open_write:
  "write_data [5, 6, 7] s_open =
     Some (2, s_open\<lparr>client := Some c_up, tx_buffer := [5, 6], wire := [1, 2],
                    calls := [Write [1, 2], Write [5, 6], Write [5, 6]], replies := [],
                    pending := []\<rparr>)"
  by (simp add: run_simps s_open_def)

lemma pending_await:
  assumes "await_canSend u = Some u'"
  shows "\<exists>m. pending u' = drop m (pending u)"
proof -
  from await_canSend_Some[OF assms] obtain i where "u' = (delay ^^ i) u" by blast
  then show ?thesis using pending_delays[of i u] by blast
qed

lemma write_data_None:
  assumes "tx_inv s" "write_data data s = None"
  shows "\<exists>u. tx_inv u \<and> tx_space u = 0 \<and> (\<exists>m. pending u = drop m (pending s)) \<and>
             await_canSend u = None"
proof (rule ccontr)
  assume n: "\<not> (\<exists>u. tx_inv u \<and> tx_space u = 0 \<and> (\<exists>m. pending u = drop m (pending s)) \<and>
             await_canSend u = None)"
  define P where "P = (\<lambda>u. tx_inv u \<and> (\<exists>m. pending u = drop m (pending s)))"
  have "\<exists>r. write_data data s = Some r"
  proof (rule write_data_returns_rule[where P = P])
    show "P s" using assms(1) unfolding P_def by (auto intro: exI[of _ 0])
    show "P u'" if pu: "P u" and au: "await_canSend u = Some u'" for u u'
    proof -
      obtain m where m: "pending u = drop m (pending s)" using pu unfolding P_def by blast
      obtain k where "pending u' = drop k (pending u)" using pending_await[OF au] by blast
      then have "pending u' = drop (k + m) (pending s)" using m by simp
      moreover have "tx_inv u'" using tx_inv_await[OF _ au] pu unfolding P_def by blast
      ultimately show ?thesis unfolding P_def by blast
    qed
    show "P (snd (sendBuffer u))" if "P u" for u
    proof -
      have "pending (snd (sendBuffer u)) = pending u"
        using sendBuffer_same_rest[of u "fst (sendBuffer u)" "snd (sendBuffer u)"]
        by (simp add: same_rest_def)
      then show ?thesis using that tx_inv_sendBuffer[of u] by (simp add: P_def)
    qed
    show "P (tx_insert bs u)" if "P u" "length bs \<le> tx_space u" for u bs
      using that tx_inv_insert[of u bs] by (simp add: P_def)
    show "await_canSend u \<noteq> None" if "P u" "tx_space u = 0" for u
      using that n unfolding P_def by metis
  qed
  then show False using assms(2) by simp
qed

text \<open>
  An invariant of the runs from \<open>s_open\<close>: the handle is either open, or busy with the
  yield that opens it still to come. Every wait from such a state ends.
\<close>

definition open_inv :: "SyncClient \<Rightarrow> bool" where
  "open_inv u = ((replies u = [] \<or> replies u = [(2, c_up)]) \<and>
     (client u = Some c_up \<or>
      client u = Some (c_up\<lparr>ac_busy := True\<rparr>) \<and> pending u = [[Link c_up]]))"

lemma open_inv_start: "open_inv s_open"
  by (simp add: open_inv_def s_open_def members_def)

lemma open_inv_wait:
  assumes "open_inv u"
  shows "\<exists>u'. await_canSend u = Some u' \<and> open_inv u'"
proof (cases "client u = Some c_up")
  case True
  then have "\<not> (connected u \<and> \<not> canSend u)"
    by (simp add: connected_def canSend_def ac_canSend_def c_up_def)
  then show ?thesis using assms by (simp add: await_canSend_done)
next
  case False
  then have b: "client u = Some (c_up\<lparr>ac_busy := True\<rparr>)" "pending u = [[Link c_up]]"
    using assms by (auto simp: open_inv_def)
  have w: "connected u \<and> \<not> canSend u"
    using b by (simp add: connected_def canSend_def ac_canSend_def c_up_def)
  have d: "delay u = u\<lparr>pending := [], client := Some c_up\<rparr>"
    using b by (simp add: delay_def deliver_def)
  have n: "\<not> (connected (delay u) \<and> \<not> canSend (delay u))"
    unfolding d by (simp add: connected_def canSend_def ac_canSend_def c_up_def)
  have "await_canSend u = Some (delay u)"
    using w b(2) n by (simp add: await_canSend_wait await_canSend_done)
  moreover have "open_inv (delay u)" using assms unfolding d by (simp add: open_inv_def)
  ultimately show ?thesis by blast
qed

lemma open_inv_loop:
  assumes "client s = Some c_up" "replies s = [] \<or> replies s = [(2, c_up)]"
  shows "open_inv (snd (sendBuffer_loop t s))"
  using assms
proof (induction t s rule: sendBuffer_loop_induct)
  case (step t s)
  show ?case
  proof (cases "sending s")
    case False
    then show ?thesis using step.prems by (simp add: sendBuffer_loop_stop open_inv_def)
  next
    case True
    obtain sent s1 where w: "ac_write (chunk s) s = (sent, s1)" by (cases "ac_write (chunk s) s")
    have k: "client s1 = Some c_up" "replies s1 = [] \<or> replies s1 = [(2, c_up)]"
      using w step.prems by (auto simp: ac_write_def handle_call_def Let_def split: list.splits)
    have k': "client (drained (advance sent s1)) = Some c_up"
      "replies (drained (advance sent s1)) = [] \<or> replies (drained (advance sent s1)) = [(2, c_up)]"
      "client (advance sent s1) = Some c_up"
      "replies (advance sent s1) = [] \<or> replies (advance sent s1) = [(2, c_up)]"
      using k by (simp_all add: drained_def advance_def)
    show ?thesis
    proof (cases "sent = length (chunk s)")
      case False
      then show ?thesis using True w k'(3,4) by (simp add: sendBuffer_loop_go open_inv_def)
    next
      case e: True
      have "sendBuffer_loop t s = sendBuffer_loop (t + sent) (drained (advance sent s1))"
        using True w e by (simp add: sendBuffer_loop_go)
      then show ?thesis using step.IH[OF True w e k'(1,2)] by simp
    qed
  qed
qed

lemma open_inv_sendBuffer:
  assumes "open_inv u"
  shows "open_inv (snd (sendBuffer u))"
proof (cases "client u = Some c_up")
  case True
  then show ?thesis using assms open_inv_loop[of u 0] by (simp add: sendBuffer_def open_inv_def)
next
  case False
  then have "client u = Some (c_up\<lparr>ac_busy := True\<rparr>)" using assms by (auto simp: open_inv_def)
  then have "\<not> canSend u" by (simp add: canSend_def ac_canSend_def)
  then show ?thesis using assms by (simp add: sendBuffer_def)
qed

lemma open_inv_insert: "open_inv u \<Longrightarrow> open_inv (tx_insert bs u)"
  by (simp add: open_inv_def tx_insert_def)

lemma open_inv_await: 
  assumes "open_inv u" "await_canSend u = Some u'"
  shows "open_inv u'"
  using open_inv_wait[OF assms(1)] assms(2) by auto

text \<open>
  C1. Without a handle, or on a handle that is not connected, the write function returns
  0 and the state it was given. On a connected adapter the call is one round and, after
  it, a call on the rest of the data: it copies \<open>k = min (free space) len\<close> bytes; if that
  is all the data it makes its last drain attempt and returns \<open>len\<close>; if not the buffer is
  full and it waits; when the wait ends without a connection it returns \<open>k\<close>, the bytes
  copied so far; when the drain that follows frees no space it returns \<open>k\<close>; and otherwise
  it returns \<open>k\<close> plus what writing the rest returns. So the count is fixed on every path,
  it is at most \<open>len\<close>, and a short count is the only sign of a short write. On a still
  bound adapter the wire followed by the unsent bytes has grown by exactly the first \<open>n\<close>
  bytes of the data.

  The call fails to return only by waiting for ever: from a state with a full buffer, in
  which the adapter stays connected and unable to send through all the yields to come,
  after which no event is pending. It returns whenever every such wait ends, in
  particular on every run in which the connection ends, and at once when the buffer has
  room for all the data. The wait itself returns the state after the first yield at which
  the adapter is not connected or can send.
\<close>

theorem write_data_result:
  assumes "tx_inv s"
  shows "(client s = None \<or> \<not> connected s \<longrightarrow> write_data data s = Some (0, s)) \<and>
         (connected s \<longrightarrow>
            write_data data s =
              (let k = min (tx_space s) (length data); s0 = tx_insert (take k data) s
               in if k = length data then Some (write_finish k s0)
                  else
                    (case await_canSend s0 of
                       None \<Rightarrow> None
                     | Some s1 \<Rightarrow>
                         if \<not> connected s1 then Some (k, s1)
                         else (let s2 = snd (sendBuffer s1)
                               in if tx_space s2 = 0 then Some (write_finish k s2)
                                  else if connected s2 then shifted k (write_data (drop k data) s2)
                                  else (let k2 = min (tx_space s2) (length data - k)
                                        in Some (k + k2, tx_insert (take k2 (drop k data)) s2)))))) \<and>
         (\<forall>n s'. write_data data s = Some (n, s') \<longrightarrow>
            n \<le> length data \<and> tx_inv s' \<and>
            (client s' \<noteq> None \<longrightarrow> wire s' @ unsent s' = wire s @ unsent s @ take n data)) \<and>
         (write_data data s = None \<longrightarrow>
            (\<exists>u. tx_inv u \<and> tx_space u = 0 \<and> (\<exists>m. pending u = drop m (pending s)) \<and>
                 (\<forall>i \<le> length (pending u). waiting ((delay ^^ i) u)) \<and>
                 pending ((delay ^^ length (pending u)) u) = [])) \<and>
         (\<forall>P. P s \<and> (\<forall>u u'. P u \<and> await_canSend u = Some u' \<longrightarrow> P u') \<and>
              (\<forall>u. P u \<longrightarrow> P (snd (sendBuffer u))) \<and>
              (\<forall>u bs. P u \<and> length bs \<le> tx_space u \<longrightarrow> P (tx_insert bs u)) \<and>
              (\<forall>u. P u \<and> tx_space u = 0 \<longrightarrow> await_canSend u \<noteq> None) \<longrightarrow>
              (\<exists>r. write_data data s = Some r)) \<and>
         (ends s \<longrightarrow> (\<exists>r. write_data data s = Some r)) \<and>
         (connected s \<and> length data \<le> tx_space s \<longrightarrow>
            (\<exists>s'. write_data data s = Some (length data, s'))) \<and>
         (await_canSend w = None) = (\<forall>i \<le> length (pending w). waiting ((delay ^^ i) w)) \<and>
         (\<forall>w1. await_canSend w = Some w1 \<longrightarrow>
            (\<exists>i \<le> length (pending w). w1 = (delay ^^ i) w \<and> \<not> waiting w1 \<and>
                 (\<forall>j < i. waiting ((delay ^^ j) w))))"
proof -
  have a: "client s = None \<or> \<not> connected s \<longrightarrow> write_data data s = Some (0, s)"
    by (simp add: write_data_def)
  have b: "connected s \<longrightarrow>
            write_data data s =
              (let k = min (tx_space s) (length data); s0 = tx_insert (take k data) s
               in if k = length data then Some (write_finish k s0)
                  else
                    (case await_canSend s0 of
                       None \<Rightarrow> None
                     | Some s1 \<Rightarrow>
                         if \<not> connected s1 then Some (k, s1)
                         else (let s2 = snd (sendBuffer s1)
                               in if tx_space s2 = 0 then Some (write_finish k s2)
                                  else if connected s2 then shifted k (write_data (drop k data) s2)
                                  else (let k2 = min (tx_space s2) (length data - k)
                                        in Some (k + k2, tx_insert (take k2 (drop k data)) s2)))))"
    using write_data_round[OF assms] by blast
  have c: "\<forall>n s'. write_data data s = Some (n, s') \<longrightarrow>
            n \<le> length data \<and> tx_inv s' \<and>
            (client s' \<noteq> None \<longrightarrow> wire s' @ unsent s' = wire s @ unsent s @ take n data)"
    using write_data_queued[OF assms] by blast
  have d: "write_data data s = None \<longrightarrow>
            (\<exists>u. tx_inv u \<and> tx_space u = 0 \<and> (\<exists>m. pending u = drop m (pending s)) \<and>
                 (\<forall>i \<le> length (pending u). waiting ((delay ^^ i) u)) \<and>
                 pending ((delay ^^ length (pending u)) u) = [])"
  proof
    assume "write_data data s = None"
    from write_data_None[OF assms this] obtain u where u: "tx_inv u" "tx_space u = 0"
      "\<exists>m. pending u = drop m (pending s)" "await_canSend u = None" by blast
    have "\<forall>i \<le> length (pending u). waiting ((delay ^^ i) u)"
      using u(4) by (simp only: await_canSend_None_iff)
    moreover have "pending ((delay ^^ length (pending u)) u) = []"
      using await_canSend_None_stuck[OF u(4)] by blast
    ultimately show "\<exists>u. tx_inv u \<and> tx_space u = 0 \<and> (\<exists>m. pending u = drop m (pending s)) \<and>
                 (\<forall>i \<le> length (pending u). waiting ((delay ^^ i) u)) \<and>
                 pending ((delay ^^ length (pending u)) u) = []"
      using u(1,2,3) by blast
  qed
  have e: "\<forall>P. P s \<and> (\<forall>u u'. P u \<and> await_canSend u = Some u' \<longrightarrow> P u') \<and>
              (\<forall>u. P u \<longrightarrow> P (snd (sendBuffer u))) \<and>
              (\<forall>u bs. P u \<and> length bs \<le> tx_space u \<longrightarrow> P (tx_insert bs u)) \<and>
              (\<forall>u. P u \<and> tx_space u = 0 \<longrightarrow> await_canSend u \<noteq> None) \<longrightarrow>
              (\<exists>r. write_data data s = Some r)"
  proof (intro allI impI)
    fix P
    assume h: "P s \<and> (\<forall>u u'. P u \<and> await_canSend u = Some u' \<longrightarrow> P u') \<and>
              (\<forall>u. P u \<longrightarrow> P (snd (sendBuffer u))) \<and>
              (\<forall>u bs. P u \<and> length bs \<le> tx_space u \<longrightarrow> P (tx_insert bs u)) \<and>
              (\<forall>u. P u \<and> tx_space u = 0 \<longrightarrow> await_canSend u \<noteq> None)"
    show "\<exists>r. write_data data s = Some r"
    proof (rule write_data_returns_rule[where P = P])
      show "P s" using h by blast
      show "\<And>u u'. P u \<Longrightarrow> await_canSend u = Some u' \<Longrightarrow> P u'" using h by blast
      show "\<And>u. P u \<Longrightarrow> P (snd (sendBuffer u))" using h by blast
      show "\<And>u bs. P u \<Longrightarrow> length bs \<le> tx_space u \<Longrightarrow> P (tx_insert bs u)" using h by blast
      show "\<And>u. P u \<Longrightarrow> tx_space u = 0 \<Longrightarrow> await_canSend u \<noteq> None" using h by blast
    qed
  qed
  have f: "ends s \<longrightarrow> (\<exists>r. write_data data s = Some r)"
    using write_data_returns by blast
  have g: "connected s \<and> length data \<le> tx_space s \<longrightarrow>
            (\<exists>s'. write_data data s = Some (length data, s'))"
    using write_data_room by blast
  have h: "(await_canSend w = None) = (\<forall>i \<le> length (pending w). waiting ((delay ^^ i) w))"
    by (rule await_canSend_None_iff)
  have i: "\<forall>w1. await_canSend w = Some w1 \<longrightarrow>
            (\<exists>i \<le> length (pending w). w1 = (delay ^^ i) w \<and> \<not> waiting w1 \<and>
                 (\<forall>j < i. waiting ((delay ^^ j) w)))"
    using await_canSend_Some[of w] by blast
  show ?thesis
    by (intro conjI) (rule a b c d e f g h i)+
qed

theorem write_data_result_witness:
  "tx_inv s_mid \<and> connected s_mid \<and> tx_space s_mid = 2 \<and>
   write_data [5, 6, 7] s_mid = Some (2, s_mid\<lparr>client := None, pending := []\<rparr>) \<and>
   tx_inv s_open \<and> connected s_open \<and> \<not> ends s_open \<and> tx_space s_open = 0 \<and>
   write_data [5, 6, 7] s_open =
     Some (2, s_open\<lparr>client := Some c_up, tx_buffer := [5, 6], wire := [1, 2],
                    calls := [Write [1, 2], Write [5, 6], Write [5, 6]], replies := [],
                    pending := []\<rparr>) \<and>
   open_inv s_open \<and> (\<exists>r. write_data [5, 6, 7] s_open = Some r) \<and>
   tx_inv s_stuck \<and> write_data [5, 6, 7] s_stuck = None \<and> tx_space s_stuck = 0 \<and>
   waiting s_stuck \<and> pending s_stuck = [] \<and> await_canSend s_stuck = None \<and>
   tx_inv s_tx \<and> connected s_tx \<and>
   write_data [6, 7, 8, 9, 10, 11] s_tx =
     Some (6, s_tx\<lparr>client := Some c_up, tx_buffer := [1, 2, 3, 4, 5, 6, 7, 8, 9, 10, 11],
                   tx_buffer_head := 5, wire := [2, 3, 4, 5],
                   calls := [Write [2, 3, 4], Write [5, 6], Write [6, 7, 8, 9, 10, 11]],
                   replies := []\<rparr>) \<and>
   wire s_tx @ unsent s_tx @ take 6 [6, 7, 8, 9, 10, 11] = [2, 3, 4, 5] @ [6, 7, 8, 9, 10, 11] \<and>
   tx_inv s_full \<and> connected s_full \<and> ends s_full \<and>
   write_data [5, 6, 7] s_full =
     Some (0, s_full\<lparr>client := None, tx_buffer := [], rx_buffer := [9], calls := [AckLater],
                    pending := []\<rparr>) \<and>
   tx_inv s_refused \<and> connected s_refused \<and>
   write_data [5, 6, 7] s_refused =
     Some (2, s_refused\<lparr>tx_buffer := [5, 6], calls := [Write [5, 6], Write [5, 6]]\<rparr>) \<and>
   tx_inv (s_refused\<lparr>client := None\<rparr>) \<and>
   write_data [5, 6, 7] (s_refused\<lparr>client := None\<rparr>) = Some (0, s_refused\<lparr>client := None\<rparr>) \<and>
   length [5, 6 :: byte] \<le> tx_space s_refused \<and>
   write_data [5, 6] s_refused = Some (2, s_refused\<lparr>tx_buffer := [5, 6], calls := [Write [5, 6]]\<rparr>)"
proof -
  have i: "tx_inv s_tx" "tx_inv s_full" "tx_inv s_refused" "tx_inv (s_refused\<lparr>client := None\<rparr>)"
    "tx_inv s_mid" "tx_inv s_open" "tx_inv s_stuck"
    by (simp_all add: tx_inv_def s_tx_def s_full_def s_refused_def s_mid_def s_open_def s_stuck_def
        members_def)
  have c: "connected s_tx" "connected s_full" "connected s_refused" "connected s_mid"
    "connected s_open"
    by (simp_all add: connected_def s_tx_def s_full_def s_refused_def s_mid_def s_open_def
        members_def c_up_def)
  have e: "ends s_full" "\<not> ends s_open"
    by (simp_all add: ends_def s_full_def s_open_def members_def)
  have sp: "tx_space s_mid = 2" "tx_space s_open = 0" "tx_space s_stuck = 0"
    "length [5, 6 :: byte] \<le> tx_space s_refused"
    by (simp_all add: tx_space_def size_sub_def s_mid_def s_open_def s_stuck_def s_full_def
        s_refused_def members_def)
  have st: "waiting s_stuck" "pending s_stuck = []"
    by (simp_all add: waiting_def connected_def canSend_def ac_canSend_def s_stuck_def s_full_def
        members_def c_up_def)
  have u: "wire s_tx @ unsent s_tx @ take 6 [6, 7, 8, 9, 10, 11] = [2, 3, 4, 5] @ [6, 7, 8, 9, 10, 11]"
    by (simp add: unsent_def s_tx_def members_def)
  note mid = write_data_result[OF i(5), where data = "[5, 6, 7]" and w = s_stuck]
  have m: "write_data [5, 6, 7] s_mid = Some (2, s_mid\<lparr>client := None, pending := []\<rparr>)"
    using mid[THEN conjunct2, THEN conjunct1] c(4)
    by (simp add: tx_space_def tx_insert_def size_sub_def await_canSend.simps delay_def deliver_def
        onDisconnect_def connected_def canSend_def ac_canSend_def Let_def s_mid_def members_def
        c_up_def)
  have a: "await_canSend s_stuck = None"
    using mid[THEN conjunct2, THEN conjunct2, THEN conjunct2, THEN conjunct2, THEN conjunct2,
              THEN conjunct2, THEN conjunct2, THEN conjunct1] st
    by simp
  have o: "open_inv s_open \<and>
           (\<forall>u u'. open_inv u \<and> await_canSend u = Some u' \<longrightarrow> open_inv u') \<and>
           (\<forall>u. open_inv u \<longrightarrow> open_inv (snd (sendBuffer u))) \<and>
           (\<forall>u bs. open_inv u \<and> length bs \<le> tx_space u \<longrightarrow> open_inv (tx_insert bs u)) \<and>
           (\<forall>u. open_inv u \<and> tx_space u = 0 \<longrightarrow> await_canSend u \<noteq> None)"
  proof (intro conjI allI impI)
    show "open_inv s_open" by (rule open_inv_start)
    show "open_inv u'" if "open_inv u \<and> await_canSend u = Some u'" for u u'
      using that open_inv_await by blast
    show "open_inv (snd (sendBuffer u))" if "open_inv u" for u
      using that by (rule open_inv_sendBuffer)
    show "open_inv (tx_insert bs u)" if "open_inv u \<and> length bs \<le> tx_space u" for u bs
      using that open_inv_insert by blast
    show "await_canSend u \<noteq> None" if "open_inv u \<and> tx_space u = 0" for u
      using that open_inv_wait[of u] by auto
  qed
  have r: "\<exists>r. write_data [5, 6, 7] s_open = Some r"
    using write_data_result[OF i(6), where data = "[5, 6, 7]" and w = s_stuck, THEN conjunct2,
            THEN conjunct2, THEN conjunct2, THEN conjunct2, THEN conjunct1,
            THEN spec[where x = open_inv]] o
    by (rule mp)
  have w: "write_data [5, 6] s_refused = Some (2, s_refused\<lparr>tx_buffer := [5, 6], calls := [Write [5, 6]]\<rparr>)"
    by (simp add: run_simps s_refused_def)
  have n: "client (s_refused\<lparr>client := None\<rparr>) = None" by simp
  have z: "write_data [5, 6, 7] (s_refused\<lparr>client := None\<rparr>) = Some (0, s_refused\<lparr>client := None\<rparr>)"
    using write_data_result[OF i(4), where data = "[5, 6, 7]" and w = s_stuck, THEN conjunct1] n
    by blast
  show ?thesis
    using i c e sp st u m a w z r open_inv_start s_tx_write s_full_write s_refused_write s_open_write s_stuck_write
    by simp
qed


subsection \<open>The head of the receive buffer\<close>

text \<open>
  The head of the receive buffer stays inside the vector: the constructors start there,
  and every function and every event keeps it.
\<close>

definition rx_inv :: "SyncClient \<Rightarrow> bool" where
  "rx_inv s = (rx_buffer_head s \<le> length (rx_buffer s))"

lemma rx_inv_read:
  assumes "rx_inv s"
  shows "rx_inv (snd (snd (read len s)))"
proof -
  have a: "size_sub (length (rx_buffer s)) (rx_buffer_head s) = length (rx_buffer s) - rx_buffer_head s"
    using assms by (simp add: rx_inv_def size_sub_le)
  define n where "n = min len (length (rx_buffer s) - rx_buffer_head s)"
  have "rx_buffer_head s + n \<le> length (rx_buffer s)"
    using assms unfolding n_def rx_inv_def by arith
  then show ?thesis using assms
    by (simp add: read_def a Let_def rx_inv_def handle_call_def n_def[symmetric])
qed

lemma rx_inv_sendBuffer: "rx_inv s \<Longrightarrow> rx_inv (snd (sendBuffer s))"
  using sendBuffer_same_rest[of s "fst (sendBuffer s)" "snd (sendBuffer s)"]
  by (simp add: rx_inv_def same_rest_def)

lemma rx_inv_deliver: "rx_inv s \<Longrightarrow> rx_inv (deliver ev s)"
  using rx_inv_sendBuffer[of s]
  by (auto simp: deliver_def rx_inv_def onData_def onDisconnect_def handle_call_def Let_def
           split: option.splits event.splits)

lemma rx_inv_delay:
  assumes "rx_inv s"
  shows "rx_inv (delay s)"
proof (rule delay_rule[of rx_inv])
  show "\<And>ev s. rx_inv s \<Longrightarrow> rx_inv (deliver ev s)" by (rule rx_inv_deliver)
  show "\<And>s p. rx_inv s \<Longrightarrow> rx_inv (s\<lparr>pending := p\<rparr>)" by (simp add: rx_inv_def)
  show "rx_inv s" by (rule assms)
qed

lemma rx_inv_await: "rx_inv s \<Longrightarrow> await_canSend s = Some s1 \<Longrightarrow> rx_inv s1"
  using await_canSend_rule[of rx_inv s s1] rx_inv_delay by blast

lemma rx_inv_write_data:
  assumes "rx_inv s" "write_data data s = Some (n, s')"
  shows "rx_inv s'"
proof (cases "client s = None \<or> \<not> connected s")
  case True
  then show ?thesis using assms by (auto simp: write_data_def)
next
  case False
  then have r: "write_loop data 0 s = Some (n, s')" using assms(2) by (auto simp: write_data_def)
  show ?thesis
  proof (rule write_loop_rule[of "\<lambda>w. rx_inv", OF _ _ _ assms(1) r])
    show "\<And>w s s1. rx_inv s \<Longrightarrow> await_canSend s = Some s1 \<Longrightarrow> rx_inv s1" by (rule rx_inv_await)
    show "\<And>w s. rx_inv s \<Longrightarrow> rx_inv (snd (sendBuffer s))" by (rule rx_inv_sendBuffer)
    show "\<And>w s k. rx_inv s \<Longrightarrow> rx_inv (tx_insert (take k (drop w data)) s)"
      by (simp add: rx_inv_def tx_insert_def)
  qed
qed

lemma rx_inv_flush: "rx_inv s \<Longrightarrow> flush m s = Some (b, s') \<Longrightarrow> rx_inv s'"
  by (auto simp: flush_def Let_def dest: rx_inv_await rx_inv_sendBuffer split: if_splits option.splits)

lemma rx_inv_others:
  "rx_inv (new_SyncClient n alloc rs evs)" "rx_inv (new_SyncClient_on c n alloc rs evs)"
  "rx_inv (release s)"
  "rx_inv s \<Longrightarrow> rx_inv (onConnect c' s)" "rx_inv s \<Longrightarrow> rx_inv (onDisconnect s)"
  "rx_inv s \<Longrightarrow> rx_inv (onData bs ok s)" "rx_inv s \<Longrightarrow> rx_inv (snd (stop m s))"
  "rx_inv s \<Longrightarrow> rx_inv (destroy s)"
  by (auto simp: rx_inv_def new_SyncClient_def new_SyncClient_on_def ref_def members_def release_eq
      attachCallbacks_def attachCallbacks_AfterConnected_def attachCallbacks_Disconnect_def
      handle_call_def onConnect_def onDisconnect_def onData_def stop_def ac_close_def Let_def
      destroy_cases split: option.splits prod.splits)

end
